theory Spec2Isabelle
  imports Main "HOL-Library.Word"
begin

section \<open>The mysqlerrgen generator, embedded\<close>

text \<open>
  The repository holds two versions of the generator: \<^verbatim>\<open>src/cmd/mysqlerrgen/main.go\<close>
  (the current one, copyright line 2021-2023: errors are returned, the previous
  \<^verbatim>\<open>constants.go\<close> is read back and deprecated aliases are written) and
  \<^verbatim>\<open>src/unnamed/part_000\<close> (an earlier one, copyright line 2021: malformed input panics or
  is accepted, no aliases). Definitions without suffix embed \<^verbatim>\<open>main.go\<close>; definitions with
  suffix \<open>_v0\<close> embed \<^verbatim>\<open>part_000\<close> where it differs.

  Go strings are byte sequences: \<open>string\<close> (a list of 8-bit \<open>char\<close>). Go's \<^verbatim>\<open>int\<close> is
  taken to be 64 bits wide (\<open>64 word\<close>, read as two's complement by \<open>sint\<close>). A rune is
  a code point (\<open>nat\<close>). Functions of Go's standard library (\<^verbatim>\<open>strings\<close>, \<^verbatim>\<open>strconv\<close>,
  \<^verbatim>\<open>unicode/utf8\<close>, \<^verbatim>\<open>bufio.ScanLines\<close>, \<^verbatim>\<open>fmt.Fprintln\<close>) are embedded from their
  documented behaviour and their source. Input and output files are byte strings, read
  the way a file and standard input are read; failures of the operating system (opening,
  creating, closing files, the HTTP request) are outside the model.
\<close>

type_synonym rune = nat
type_synonym goint = "64 word"

abbreviation HT :: char where "HT \<equiv> CHR 0x09"
abbreviation LF :: char where "LF \<equiv> CHR 0x0A"
abbreviation CR :: char where "CR \<equiv> CHR 0x0D"
abbreviation DQ :: char where "DQ \<equiv> CHR 0x22"
abbreviation BSL :: char where "BSL \<equiv> CHR 0x5C"

subsection \<open>Data\<close>

record language =
  longName :: string
  shortName :: string
  charset :: string

record message =
  langShortName :: string
  msgText :: string  \<comment> \<open>the field \<^verbatim>\<open>text\<close>\<close>

record mysqlError =
  name :: string
  code :: goint
  sqlState :: string
  odbcState :: string
  messages :: "message list"
  obsolete :: bool

text \<open>
  Every way a run can end without its result: the errors \<^verbatim>\<open>run\<close> returns, the panics
  (Go's runtime panics and the explicit \<^verbatim>\<open>panic\<close> calls of the earlier version), and
  \<open>NoReturn\<close> for a call that loops forever.
\<close>

datatype error =
    InvalidFormat string      \<comment> \<open>\<^verbatim>\<open>fmt.Errorf("invalid format: %q", s.Text())\<close>\<close>
  | UnexpectedEOL string      \<comment> \<open>\<^verbatim>\<open>fmt.Errorf("unexpected EOL: %q", s.Text())\<close>\<close>
  | QuoteEOL                  \<comment> \<open>\<^verbatim>\<open>fmt.Errorf("unexpected EOL")\<close> of parseQuoted\<close>
  | ParseQuote string error   \<comment> \<open>\<^verbatim>\<open>fmt.Errorf("parse quote(%q): %w", s.Text(), err)\<close>\<close>
  | UnknownFormat string      \<comment> \<open>\<^verbatim>\<open>fmt.Errorf("unknown format: %q", line)\<close>\<close>
  | PanicIndexOutOfRange      \<comment> \<open>runtime panic: index out of range\<close>
  | PanicSliceBounds          \<comment> \<open>runtime panic: slice bounds out of range\<close>
  | PanicQuoteEOL             \<comment> \<open>\<^verbatim>\<open>panic("unexpected EOL")\<close> (earlier version)\<close>
  | PanicUnknownFormat string \<comment> \<open>\<^verbatim>\<open>panic("unknown format: " + strconv.Quote(line))\<close>\<close>
  | NoReturn                  \<comment> \<open>the call never returns\<close>

subsection \<open>Package strings\<close>

text \<open>\<^verbatim>\<open>strings.HasPrefix(s, prefix)\<close>.\<close>

definition hasPrefix :: "string \<Rightarrow> string \<Rightarrow> bool" where
  "hasPrefix s p = (length p \<le> length s \<and> take (length p) s = p)"

text \<open>
  \<^verbatim>\<open>strings.IndexAny(s, chars)\<close> for a set \<open>chars\<close> of ASCII characters (all call sites):
  the index of the first byte of \<open>s\<close> that is in \<open>chars\<close>, or \<open>-1\<close>.
\<close>

fun indexAny :: "string \<Rightarrow> string \<Rightarrow> int" where
  "indexAny [] chars = -1"
| "indexAny (c # cs) chars =
     (if c \<in> set chars then 0
      else (let i = indexAny cs chars in if i < 0 then -1 else i + 1))"

text \<open>\<^verbatim>\<open>strings.TrimLeft(s, cutset)\<close> for an ASCII cutset.\<close>

fun trimLeft :: "string \<Rightarrow> string \<Rightarrow> string" where
  "trimLeft [] cutset = []"
| "trimLeft (c # cs) cutset = (if c \<in> set cutset then trimLeft cs cutset else c # cs)"

text \<open>\<^verbatim>\<open>strings.Split(s, " ")\<close>: the fields between single spaces (at least one field).\<close>

fun splitSpace :: "string \<Rightarrow> string list" where
  "splitSpace [] = [[]]"
| "splitSpace (c # cs) =
     (if c = CHR '' '' then [] # splitSpace cs
      else (case splitSpace cs of t # ts \<Rightarrow> (c # t) # ts | [] \<Rightarrow> [[c]]))"

subsection \<open>The tokenizer\<close>

text \<open>The delimiter set \<^verbatim>\<open>" ,\t\r\n="\<close> of consumeWord and the cutset \<^verbatim>\<open>" ,\t="\<close> of trimDelimiters.\<close>

definition wordDelims :: string where
  "wordDelims = [CHR '' '', CHR '','', HT, CR, LF, CHR ''='']"

definition trimCutset :: string where
  "trimCutset = [CHR '' '', CHR '','', HT, CHR ''='']"

definition consumeWord :: "string \<Rightarrow> string \<times> string" where
  "consumeWord s =
     (let i = indexAny s wordDelims
      in if i < 0 then (s, []) else (take (nat i) s, drop (nat i) s))"

definition trimDelimiters :: "string \<Rightarrow> string" where
  "trimDelimiters s = trimLeft s trimCutset"

subsection \<open>parseLanguage\<close>

text \<open>
  The \<^verbatim>\<open>for !(strings.HasPrefix(s, ";") || s == "")\<close> loop. Nothing in the loop bounds
  the number of iterations, so it is a partial function: \<open>None\<close> is "never returns".
\<close>

partial_function (option) parseLanguage_loop :: "string \<Rightarrow> language list \<Rightarrow> language list option" where
  "parseLanguage_loop s langs =
     (if hasPrefix s '';'' \<or> s = [] then Some langs
      else
        (let (longName, x) = consumeWord s;
             x = trimDelimiters x;
             (shortName, x) = consumeWord x;
             x = trimDelimiters x;
             (charset, x) = consumeWord x;
             s' = trimDelimiters x
         in parseLanguage_loop s'
              (langs @ [\<lparr>longName = longName, shortName = shortName, charset = charset\<rparr>])))"

definition parseLanguage :: "string \<Rightarrow> language list option" where
  "parseLanguage s =
     (let (kw, s) = consumeWord s;
          s = trimDelimiters s
      in parseLanguage_loop s [])"

declare parseLanguage_loop.simps [code]

subsection \<open>UTF-8: \<^verbatim>\<open>[]rune(s)\<close> and \<^verbatim>\<open>WriteRune\<close>\<close>

definition isCont :: "nat \<Rightarrow> bool" where
  "isCont b = (0x80 \<le> b \<and> b \<le> 0xBF)"

text \<open>
  The range a lead byte accepts for the second byte (the table \<^verbatim>\<open>acceptRanges\<close> of
  \<^verbatim>\<open>unicode/utf8\<close>): it excludes overlong forms, surrogates and values past U+10FFFF.
\<close>

definition acceptLo :: "nat \<Rightarrow> nat" where
  "acceptLo b0 = (if b0 = 0xE0 then 0xA0 else if b0 = 0xF0 then 0x90 else 0x80)"

definition acceptHi :: "nat \<Rightarrow> nat" where
  "acceptHi b0 = (if b0 = 0xED then 0x9F else if b0 = 0xF4 then 0x8F else 0xBF)"

text \<open>
  The sequences of two, three and four bytes: the lead byte \<open>b0\<close>, the second byte
  \<open>b1\<close> and the bytes after it. An invalid or truncated sequence is U+FFFD and takes
  one byte.
\<close>

definition decode2 :: "nat \<Rightarrow> nat \<Rightarrow> rune \<times> nat" where
  "decode2 b0 b1 =
     (if acceptLo b0 \<le> b1 \<and> b1 \<le> acceptHi b0
      then ((b0 mod 0x20) * 0x40 + b1 mod 0x40, 2)
      else (0xFFFD, 1))"

definition decode3 :: "nat \<Rightarrow> nat \<Rightarrow> string \<Rightarrow> rune \<times> nat" where
  "decode3 b0 b1 rest =
     (case rest of
        c2 # _ \<Rightarrow>
          (if acceptLo b0 \<le> b1 \<and> b1 \<le> acceptHi b0 \<and> isCont (of_char c2)
           then ((b0 mod 0x10) * 0x1000 + (b1 mod 0x40) * 0x40 + of_char c2 mod 0x40, 3)
           else (0xFFFD, 1))
      | [] \<Rightarrow> (0xFFFD, 1))"

definition decode4 :: "nat \<Rightarrow> nat \<Rightarrow> string \<Rightarrow> rune \<times> nat" where
  "decode4 b0 b1 rest =
     (case rest of
        c2 # c3 # _ \<Rightarrow>
          (if acceptLo b0 \<le> b1 \<and> b1 \<le> acceptHi b0 \<and> isCont (of_char c2) \<and> isCont (of_char c3)
           then ((b0 mod 0x08) * 0x40000 + (b1 mod 0x40) * 0x1000
                  + (of_char c2 mod 0x40) * 0x40 + of_char c3 mod 0x40, 4)
           else (0xFFFD, 1))
      | _ \<Rightarrow> (0xFFFD, 1))"

text \<open>
  One step of the conversion \<^verbatim>\<open>[]rune(s)\<close>: the rune at the head of \<open>s\<close> and the number
  of bytes it takes.
\<close>

fun decodeRune :: "string \<Rightarrow> rune \<times> nat" where
  "decodeRune [] = (0xFFFD, 0)"
| "decodeRune [c0] =
     (let b0 = (of_char c0 :: nat) in if b0 < 0x80 then (b0, 1) else (0xFFFD, 1))"
| "decodeRune (c0 # c1 # rest) =
     (let b0 = (of_char c0 :: nat); b1 = (of_char c1 :: nat) in
      if b0 < 0x80 then (b0, 1)
      else if 0xC2 \<le> b0 \<and> b0 \<le> 0xDF then decode2 b0 b1
      else if 0xE0 \<le> b0 \<and> b0 \<le> 0xEF then decode3 b0 b1 rest
      else if 0xF0 \<le> b0 \<and> b0 \<le> 0xF4 then decode4 b0 b1 rest
      else (0xFFFD, 1))"

text \<open>\<open>runes_from k s\<close>: the runes of \<open>s\<close> after skipping the \<open>k\<close> bytes the previous rune still covers.\<close>

fun runes_from :: "nat \<Rightarrow> string \<Rightarrow> rune list" where
  "runes_from k [] = []"
| "runes_from (Suc k) (c # cs) = runes_from k cs"
| "runes_from 0 (c # cs) = (let (r, w) = decodeRune (c # cs) in r # runes_from (w - 1) cs)"

definition runes :: "string \<Rightarrow> rune list" where
  "runes s = runes_from 0 s"

text \<open>\<^verbatim>\<open>b.WriteRune(r)\<close>: the UTF-8 encoding of \<open>r\<close> (U+FFFD for a value that is no code point).\<close>

definition encodeRune :: "rune \<Rightarrow> string" where
  "encodeRune r =
     (if r \<le> 0x7F then [char_of r]
      else if r \<le> 0x7FF then [char_of (0xC0 + r div 0x40), char_of (0x80 + r mod 0x40)]
      else if r > 0x10FFFF \<or> (0xD800 \<le> r \<and> r \<le> 0xDFFF) then [CHR 0xEF, CHR 0xBF, CHR 0xBD]
      else if r \<le> 0xFFFF then
        [char_of (0xE0 + r div 0x1000), char_of (0x80 + (r div 0x40) mod 0x40),
         char_of (0x80 + r mod 0x40)]
      else
        [char_of (0xF0 + r div 0x40000), char_of (0x80 + (r div 0x1000) mod 0x40),
         char_of (0x80 + (r div 0x40) mod 0x40), char_of (0x80 + r mod 0x40)])"

subsection \<open>parseQuoted\<close>

text \<open>
  The inner loop \<^verbatim>\<open>for j := 0; j < 3 && i < len(r); i, j = i+1, j+1\<close> of the octal case,
  with its exit test \<^verbatim>\<open>r[i] < '0' && '7' < r[i]\<close> as written. It returns \<open>n\<close> and the
  index \<open>i\<close> it leaves.
\<close>

function octal_loop :: "rune list \<Rightarrow> nat \<Rightarrow> nat \<Rightarrow> int \<Rightarrow> int \<times> nat" where
  "octal_loop r i j n =
     (if j < 3 \<and> i < length r then
        (if r ! i < 48 \<and> 55 < r ! i then (n, i - 1)
         else octal_loop r (i + 1) (j + 1) (n * 8 + (int (r ! i) - 48)))
      else (n, i))"
  by pat_completeness auto
termination
  by (relation "measure (\<lambda>(r, i, j, n). 3 - j)") auto

declare octal_loop.simps [simp del]

text \<open>No rune is below \<open>'0'\<close> and above \<open>'7'\<close> at once: the exit test never fires.\<close>

lemma octal_loop_unfold:
  "octal_loop r i j n =
     (if j < 3 \<and> i < length r
      then octal_loop r (i + 1) (j + 1) (n * 8 + (int (r ! i) - 48))
      else (n, i))"
proof -
  have dead: "\<not> (r ! i < 48 \<and> 55 < r ! i)" by linarith
  show ?thesis by (subst octal_loop.simps) (simp only: dead if_False)
qed

lemma octal_loop_index: "octal_loop r i j n = (m, k) \<Longrightarrow> i \<le> k"
proof (induction r i j n rule: octal_loop.induct)
  case (1 r i j n)
  have dead: "\<not> (r ! i < 48 \<and> 55 < r ! i)" by linarith
  show ?case
  proof (cases "j < 3 \<and> i < length r")
    case True
    with "1.prems"
    have "octal_loop r (i + 1) (j + 1) (n * 8 + (int (r ! i) - 48)) = (m, k)"
      by (subst (asm) octal_loop_unfold) simp
    with "1.IH" True dead have "i + 1 \<le> k" by blast
    then show ?thesis by simp
  next
    case False
    with "1.prems" show ?thesis
      by (subst (asm) octal_loop_unfold) simp
  qed
qed

text \<open>
  The outer loop \<^verbatim>\<open>for i := 0; i < len(r); i++\<close> from index \<open>i\<close> with the builder's bytes
  \<open>b\<close>: \<open>Some\<close> of the text at the \<^verbatim>\<open>return\<close> inside the loop, \<open>None\<close> when the loop
  runs off the end. After the octal case the loop's own \<^verbatim>\<open>i++\<close> still runs.
\<close>

function parseQuoted_loop :: "rune list \<Rightarrow> nat \<Rightarrow> string \<Rightarrow> string option" where
  "parseQuoted_loop r i b =
     (if i < length r then
        (if r ! i = 34 then Some b
         else if r ! i = 92 \<and> i + 1 < length r then
           (if r ! (i + 1) = 110 then parseQuoted_loop r (i + 2) (b @ [LF])
            else if 48 \<le> r ! (i + 1) \<and> r ! (i + 1) \<le> 55 then
              (case octal_loop r (i + 1) 0 0 of
                 (n, i') \<Rightarrow> parseQuoted_loop r (i' + 1) (b @ [char_of n]))
            else parseQuoted_loop r (i + 2) (b @ encodeRune (r ! (i + 1))))
         else parseQuoted_loop r (i + 1) (b @ encodeRune (r ! i)))
      else None)"
  by pat_completeness auto
termination
  apply (relation "measure (\<lambda>(r, i, b). length r - i)")
      apply auto
  apply (drule sym)
  apply (drule octal_loop_index)
  apply simp
  done

declare parseQuoted_loop.simps [simp del]

definition parseQuoted :: "string \<Rightarrow> error + string" where
  "parseQuoted s =
     (case parseQuoted_loop (runes s) 0 [] of
        Some t \<Rightarrow> Inr t
      | None \<Rightarrow> Inl QuoteEOL)"

text \<open>The earlier version: the same loop, ending in \<^verbatim>\<open>panic("unexpected EOL")\<close>.\<close>

definition parseQuoted_v0 :: "string \<Rightarrow> error + string" where
  "parseQuoted_v0 s =
     (case parseQuoted_loop (runes s) 0 [] of
        Some t \<Rightarrow> Inr t
      | None \<Rightarrow> Inl PanicQuoteEOL)"

subsection \<open>Package strconv\<close>

datatype uintResult = UOk int | USyntax | URange

definition isDigit :: "char \<Rightarrow> bool" where
  "isDigit c = (48 \<le> (of_char c :: nat) \<and> (of_char c :: nat) \<le> 57)"

text \<open>
  The digit loop of \<^verbatim>\<open>strconv.ParseUint(s, 10, 64)\<close> with the value \<open>n\<close> read so far: a
  byte that is no digit is a syntax error; a value beyond 64 bits is a range error,
  reported at the digit that overflows.
\<close>

fun parseUint_loop :: "string \<Rightarrow> int \<Rightarrow> uintResult" where
  "parseUint_loop [] n = UOk n"
| "parseUint_loop (c # cs) n =
     (if \<not> isDigit c then USyntax
      else if n \<ge> 1844674407370955162 then URange
      else (let n1 = n * 10 + ((of_char c :: int) - 48) in
            if n1 > 18446744073709551615 then URange else parseUint_loop cs n1))"

text \<open>
  The value \<^verbatim>\<open>strconv.Atoi(s)\<close> returns (its error is dropped at every call site): the
  number for an optional sign and decimal digits, the nearest bound of the 64-bit range
  for a number beyond it, and 0 for anything else.
\<close>

definition atoi :: "string \<Rightarrow> goint" where
  "atoi s =
     (if s = [] then 0
      else
        (let neg = (hd s = CHR ''-'');
             ds = (if hd s = CHR ''+'' \<or> hd s = CHR ''-'' then tl s else s)
         in if ds = [] then 0
            else
              (case parseUint_loop ds 0 of
                 USyntax \<Rightarrow> 0
               | URange \<Rightarrow> (if neg then word_of_int (- (2 ^ 63)) else word_of_int (2 ^ 63 - 1))
               | UOk un \<Rightarrow>
                   (if \<not> neg \<and> un \<ge> 2 ^ 63 then word_of_int (2 ^ 63 - 1)
                    else if neg \<and> un > 2 ^ 63 then word_of_int (- (2 ^ 63))
                    else if neg then word_of_int (- un)
                    else word_of_int un))))"

text \<open>The decimal digits of a natural number, and \<^verbatim>\<open>strconv.Itoa\<close> (how \<^verbatim>\<open>fmt\<close> prints an int).\<close>

function digits :: "int \<Rightarrow> string" where
  "digits n = (if n < 10 then [char_of (48 + n)] else digits (n div 10) @ [char_of (48 + n mod 10)])"
  by pat_completeness auto
termination
  by (relation "measure nat") auto

declare digits.simps [simp del]

definition itoa :: "goint \<Rightarrow> string" where
  "itoa w = (if sint w < 0 then CHR ''-'' # digits (- sint w) else digits (sint w))"

subsection \<open>bufio.Scanner with the default split function ScanLines\<close>

definition dropCR :: "string \<Rightarrow> string" where
  "dropCR s = (if s \<noteq> [] \<and> last s = CR then butlast s else s)"

text \<open>\<^verbatim>\<open>bufio.MaxScanTokenSize\<close>, the size the scanner's buffer grows to.\<close>

definition maxScanTokenSize :: int where
  "maxScanTokenSize = 64 * 1024"

text \<open>
  The tokens \<^verbatim>\<open>s.Scan()\<close>/\<^verbatim>\<open>s.Text()\<close> yield for the bytes of a file or of standard input:
  \<open>cur\<close> holds the bytes of the line being read. When the buffer is full and holds no
  newline (the line, with its carriage return, has \<^verbatim>\<open>MaxScanTokenSize\<close> bytes or more),
  \<^verbatim>\<open>Scan\<close> sets \<^verbatim>\<open>ErrTooLong\<close> and returns false. Neither loop of the program looks at
  \<^verbatim>\<open>s.Err()\<close>, so both go on with the lines read before that one. (A reader that
  reports the end of the stream together with its last bytes, as the body of an HTTP
  response may, lets a last line of exactly \<^verbatim>\<open>MaxScanTokenSize\<close> bytes without newline
  through; a file and standard input report the end in a read of their own.)
\<close>

fun scanLines_from :: "string \<Rightarrow> string \<Rightarrow> string list" where
  "scanLines_from cur [] = (if cur = [] then [] else [dropCR cur])"
| "scanLines_from cur (c # cs) =
     (if c = LF then dropCR cur # scanLines_from [] cs
      else if maxScanTokenSize \<le> int (length cur) + 1 then []
      else scanLines_from (cur @ [c]) cs)"

definition scanLines :: "string \<Rightarrow> string list" where
  "scanLines input = scanLines_from [] input"

subsection \<open>The scanning loop of run\<close>

record pstate =
  defaultLanguage :: string
  errorCodeOffset :: goint
  rCount :: goint
  languages :: "language list"
  errs :: "mysqlError list"

definition init_state :: pstate where
  "init_state =
     \<lparr>defaultLanguage = ''eng'', errorCodeOffset = 1000, rCount = 0, languages = [], errs = []\<rparr>"

text \<open>The conditions of the \<^verbatim>\<open>switch\<close> in the loop body, in the order of its cases.\<close>

datatype lineKind =
    KLanguage | KStartErrorNumber | KDefaultLanguage | KMessage | KHeader
  | KComment | KReserved | KUnknown

definition classify :: "string \<Rightarrow> lineKind" where
  "classify line =
     (if hasPrefix line ''language'' then KLanguage
      else if hasPrefix line ''start-error-number'' then KStartErrorNumber
      else if hasPrefix line ''default-language'' then KDefaultLanguage
      else if hasPrefix line [HT] \<or> hasPrefix line '' '' then KMessage
      else if hasPrefix line ''ER_'' \<or> hasPrefix line ''WARN_''
              \<or> hasPrefix line ''OBSOLETE_ER_'' \<or> hasPrefix line ''OBSOLETE_WARN_'' then KHeader
      else if hasPrefix line ''#'' \<or> line = [] then KComment
      else if hasPrefix line ''reserved-error-section'' then KReserved
      else KUnknown)"

text \<open>
  The message case up to the call of parseQuoted: the language code and the rest of the
  line after it, both trimmed of blanks and tabs.
\<close>

definition splitMessage :: "string \<Rightarrow> string \<times> string" where
  "splitMessage line =
     (let l1 = trimLeft line [CHR '' '', HT];
          i = indexAny l1 [CHR '' '', HT];
          (langShort, l2) = (if i \<ge> 0 then (take (nat i) l1, drop (nat i) l1) else (l1, []))
      in (langShort, trimLeft l2 [CHR '' '', HT]))"

text \<open>
  \<^verbatim>\<open>curErr := &errs[len(errs)-1]; curErr.messages = append(curErr.messages, m)\<close>: the index
  is out of range when no record exists.
\<close>

definition appendMessage :: "pstate \<Rightarrow> message \<Rightarrow> error + pstate" where
  "appendMessage st m =
     (if errs st = [] then Inl PanicIndexOutOfRange
      else
        (let curErr = last (errs st)
         in Inr (st\<lparr>errs := butlast (errs st) @ [curErr\<lparr>messages := messages curErr @ [m]\<rparr>]\<rparr>)))"

text \<open>
  The header case: three words, the next code, a new record. \<open>obs\<close> is the prefix
  the obsolete flag tests (the one place where the two versions of this case differ).
\<close>

definition newRecord :: "string \<Rightarrow> pstate \<Rightarrow> string \<Rightarrow> pstate" where
  "newRecord obs st line =
     (let (errorName, l1) = consumeWord line;
          l2 = trimDelimiters l1;
          (sqlSt, l3) = consumeWord l2;
          l4 = trimDelimiters l3;
          (odbcSt, l5) = consumeWord l4;
          errorCode = errorCodeOffset st + rCount st
      in st\<lparr>rCount := rCount st + 1,
             errs := errs st @ [\<lparr>name = errorName, code = errorCode, sqlState = sqlSt,
                                  odbcState = odbcSt, messages = [],
                                  obsolete = hasPrefix errorName obs\<rparr>]\<rparr>)"

text \<open>The first word after the keyword of a directive, and what follows that word.\<close>

definition directiveArg :: "string \<Rightarrow> string \<times> string" where
  "directiveArg line =
     (let (kw, l1) = consumeWord line;
          l2 = trimDelimiters l1
      in consumeWord l2)"

text \<open>The body of \<^verbatim>\<open>for s.Scan()\<close> in \<^verbatim>\<open>main.go\<close>, for one line.\<close>

definition step :: "pstate \<Rightarrow> string \<Rightarrow> error + pstate" where
  "step st line =
     (case classify line of
        KLanguage \<Rightarrow>
          (case parseLanguage line of
             None \<Rightarrow> Inl NoReturn
           | Some ls \<Rightarrow> Inr (st\<lparr>languages := ls\<rparr>))
      | KStartErrorNumber \<Rightarrow>
          (let (offsetStr, rest) = directiveArg line
           in if rest \<noteq> [] then Inl (InvalidFormat line)
              else Inr (st\<lparr>errorCodeOffset := atoi offsetStr, rCount := 0\<rparr>))
      | KDefaultLanguage \<Rightarrow>
          (let (shortName, rest) = directiveArg line
           in if rest \<noteq> [] then Inl (InvalidFormat line)
              else Inr (st\<lparr>defaultLanguage := shortName\<rparr>))
      | KMessage \<Rightarrow>
          (let (langShort, l3) = splitMessage line
           in if \<not> hasPrefix l3 [DQ] then Inl (UnexpectedEOL line)
              else
                (case parseQuoted (drop 1 l3) of
                   Inl err \<Rightarrow> Inl (ParseQuote line err)
                 | Inr txt \<Rightarrow> appendMessage st \<lparr>langShortName = langShort, msgText = txt\<rparr>))
      | KHeader \<Rightarrow> Inr (newRecord ''OBSOLETE_'' st line)
      | KComment \<Rightarrow> Inr st
      | KReserved \<Rightarrow> Inr st
      | KUnknown \<Rightarrow> Inl (UnknownFormat line))"

fun scan_loop :: "pstate \<Rightarrow> string list \<Rightarrow> error + pstate" where
  "scan_loop st [] = Inr st"
| "scan_loop st (line # rest) =
     (case step st line of Inl e \<Rightarrow> Inl e | Inr st' \<Rightarrow> scan_loop st' rest)"

text \<open>
  The same loop body in the earlier version (\<^verbatim>\<open>part_000\<close>): the two trailing-token tests
  and the missing-quote test have empty bodies (\<^verbatim>\<open>// error\<close>, \<^verbatim>\<open>// Unexpected EOL\<close>), so
  \<^verbatim>\<open>line[1:]\<close> is sliced whatever the line holds (a panic on the empty string);
  parseQuoted and the default case panic; the obsolete flag tests \<^verbatim>\<open>OBSOLETE_ER_\<close>.
\<close>

definition step_v0 :: "pstate \<Rightarrow> string \<Rightarrow> error + pstate" where
  "step_v0 st line =
     (case classify line of
        KLanguage \<Rightarrow>
          (case parseLanguage line of
             None \<Rightarrow> Inl NoReturn
           | Some ls \<Rightarrow> Inr (st\<lparr>languages := ls\<rparr>))
      | KStartErrorNumber \<Rightarrow>
          (let (offsetStr, rest) = directiveArg line
           in Inr (st\<lparr>errorCodeOffset := atoi offsetStr, rCount := 0\<rparr>))
      | KDefaultLanguage \<Rightarrow>
          (let (shortName, rest) = directiveArg line
           in Inr (st\<lparr>defaultLanguage := shortName\<rparr>))
      | KMessage \<Rightarrow>
          (let (langShort, l3) = splitMessage line
           in if l3 = [] then Inl PanicSliceBounds
              else
                (case parseQuoted_v0 (drop 1 l3) of
                   Inl err \<Rightarrow> Inl err
                 | Inr txt \<Rightarrow> appendMessage st \<lparr>langShortName = langShort, msgText = txt\<rparr>))
      | KHeader \<Rightarrow> Inr (newRecord ''OBSOLETE_ER_'' st line)
      | KComment \<Rightarrow> Inr st
      | KReserved \<Rightarrow> Inr st
      | KUnknown \<Rightarrow> Inl (PanicUnknownFormat line))"

fun scan_loop_v0 :: "pstate \<Rightarrow> string list \<Rightarrow> error + pstate" where
  "scan_loop_v0 st [] = Inr st"
| "scan_loop_v0 st (line # rest) =
     (case step_v0 st line of Inl e \<Rightarrow> Inl e | Inr st' \<Rightarrow> scan_loop_v0 st' rest)"

subsection \<open>The previous constants.go: constants, add, deprecates, parseConstantsGo\<close>

record constants =
  byName :: "string \<rightharpoonup> goint"
  byCode :: "goint \<rightharpoonup> string list"

definition emptyConstants :: constants where
  "emptyConstants = \<lparr>byName = Map.empty, byCode = Map.empty\<rparr>"

text \<open>\<^verbatim>\<open>c.byCode[code]\<close>: a key that is absent reads as the nil slice.\<close>

definition namesOf :: "constants \<Rightarrow> goint \<Rightarrow> string list" where
  "namesOf c cd = (case byCode c cd of None \<Rightarrow> [] | Some ns \<Rightarrow> ns)"

definition constants_add :: "constants \<Rightarrow> string \<Rightarrow> goint \<Rightarrow> constants" where
  "constants_add c nm cd =
     c\<lparr>byName := (byName c)(nm \<mapsto> cd), byCode := (byCode c)(cd \<mapsto> namesOf c cd @ [nm])\<rparr>"

fun deprecates_loop :: "string list \<Rightarrow> string \<Rightarrow> goint \<Rightarrow> mysqlError list" where
  "deprecates_loop [] nm cd = []"
| "deprecates_loop (n # ns) nm cd =
     (if n = nm then deprecates_loop ns nm cd
      else \<lparr>name = n, code = cd, sqlState = [], odbcState = [], messages = [],
             obsolete = False\<rparr> # deprecates_loop ns nm cd)"

definition deprecates :: "constants \<Rightarrow> string \<Rightarrow> goint \<Rightarrow> mysqlError list" where
  "deprecates c nm cd = deprecates_loop (namesOf c cd) nm cd"

text \<open>
  One line of the previous file: \<^verbatim>\<open>tokens[1]\<close> and \<^verbatim>\<open>tokens[3]\<close> are read without a test
  of \<^verbatim>\<open>len(tokens)\<close>, a runtime panic when the line has fewer fields.
\<close>

definition constants_line :: "constants \<Rightarrow> string \<Rightarrow> error + constants" where
  "constants_line c line =
     (if \<not> hasPrefix line ''const '' then Inr c
      else
        (let tokens = splitSpace line
         in if length tokens \<le> 1 then Inl PanicIndexOutOfRange
            else if length tokens \<le> 3 then Inl PanicIndexOutOfRange
            else Inr (constants_add c (tokens ! 1) (atoi (tokens ! 3)))))"

fun constants_loop :: "constants \<Rightarrow> string list \<Rightarrow> error + constants" where
  "constants_loop c [] = Inr c"
| "constants_loop c (line # rest) =
     (case constants_line c line of Inl e \<Rightarrow> Inl e | Inr c' \<Rightarrow> constants_loop c' rest)"

text \<open>parseConstantsGo on the bytes of the file it opens.\<close>

definition parseConstantsGo :: "string \<Rightarrow> error + constants" where
  "parseConstantsGo content = constants_loop emptyConstants (scanLines content)"

subsection \<open>Writing constants.go\<close>

text \<open>\<^verbatim>\<open>fmt.Fprintln\<close>: the operands separated by blanks, then a newline.\<close>

fun joinSpace :: "string list \<Rightarrow> string" where
  "joinSpace [] = []"
| "joinSpace [x] = x"
| "joinSpace (x # y # ys) = x @ '' '' @ joinSpace (y # ys)"

definition fprintln :: "string list \<Rightarrow> string" where
  "fprintln operands = joinSpace operands @ [LF]"

text \<open>The text writeLicense prints, line by line.\<close>

definition licenseLine1 :: string where
  "licenseLine1 =
     ''// Copyright 2021-2023 Nao Yonashiro ''"

definition licenseLine2 :: string where
  "licenseLine2 =
     ''// ''"

definition licenseLine3 :: string where
  "licenseLine3 =
     ''// Permission is hereby granted, free of charge, to any person obtaining a c''
     @ ''opy of this software and associated documentation files (the ''
     @ [CHR 0xE2, CHR 0x80, CHR 0x9C]
     @ ''Software''
     @ [CHR 0xE2, CHR 0x80, CHR 0x9D]
     @ ''), to deal in the Software without restriction, including without limitation''
     @ '' the rights to use, copy, modify, merge, publish, distribute, sublicense, an''
     @ ''d/or sell copies of the Software, and to permit persons to whom the Software''
     @ '' is furnished to do so, subject to the following conditions:''"

definition licenseLine4 :: string where
  "licenseLine4 =
     ''// ''"

definition licenseLine5 :: string where
  "licenseLine5 =
     ''// The above copyright notice and this permission notice shall be included i''
     @ ''n all copies or substantial portions of the Software.''"

definition licenseLine6 :: string where
  "licenseLine6 =
     ''//''"

definition licenseLine7 :: string where
  "licenseLine7 =
     ''// THE SOFTWARE IS PROVIDED ''
     @ [CHR 0xE2, CHR 0x80, CHR 0x9C]
     @ ''AS IS''
     @ [CHR 0xE2, CHR 0x80, CHR 0x9D]
     @ '', WITHOUT WARRANTY OF ANY KIND, EXPRESS OR IMPLIED, INCLUDING BUT NOT LIMITE''
     @ ''D TO THE WARRANTIES OF MERCHANTABILITY, FITNESS FOR A PARTICULAR PURPOSE AND''
     @ '' NONINFRINGEMENT. IN NO EVENT SHALL THE AUTHORS OR COPYRIGHT HOLDERS BE LIAB''
     @ ''LE FOR ANY CLAIM, DAMAGES OR OTHER LIABILITY, WHETHER IN AN ACTION OF CONTRA''
     @ ''CT, TORT OR OTHERWISE, ARISING FROM, OUT OF OR IN CONNECTION WITH THE SOFTWA''
     @ ''RE OR THE USE OR OTHER DEALINGS IN THE SOFTWARE.''"

definition licenseText :: string where
  "licenseText =
     licenseLine1 @ [LF] @ licenseLine2 @ [LF] @ licenseLine3 @ [LF] @ licenseLine4 @ [LF]
     @ licenseLine5 @ [LF] @ licenseLine6 @ [LF] @ licenseLine7"

definition generatedMarker :: string where
  "generatedMarker = ''// Code generated mysqlerrgen DO NOT EDIT.''"

definition fileHeader :: "string \<Rightarrow> string" where
  "fileHeader pkg =
     fprintln [generatedMarker]
     @ fprintln [licenseText]
     @ fprintln [''package'', pkg]"

definition constDecl :: "string \<Rightarrow> goint \<Rightarrow> string" where
  "constDecl nm cd = fprintln [''const'', nm, ''='', itoa cd]"

definition deprecatedComment :: string where
  "deprecatedComment = fprintln [''// Deprecated: should not be used'']"

text \<open>The two nested \<^verbatim>\<open>range\<close> loops at the end of \<^verbatim>\<open>run\<close>.\<close>

fun writeDeprecated :: "mysqlError list \<Rightarrow> string" where
  "writeDeprecated [] = []"
| "writeDeprecated (d # ds) =
     deprecatedComment @ constDecl (name d) (code d) @ writeDeprecated ds"

fun writeErrs :: "constants \<Rightarrow> mysqlError list \<Rightarrow> string" where
  "writeErrs cs [] = []"
| "writeErrs cs (e # es) =
     writeDeprecated (deprecates cs (name e) (code e))
     @ constDecl (name e) (code e) @ writeErrs cs es"

text \<open>
  \<^verbatim>\<open>run\<close>: \<open>pkg\<close> is the \<^verbatim>\<open>-pkg\<close> flag (a directory \<^verbatim>\<open>os.MkdirAll\<close> can create), \<open>input\<close>
  the bytes of the source stream, \<open>prior\<close> the bytes of the existing \<^verbatim>\<open>constants.go\<close>
  (\<open>None\<close> when \<^verbatim>\<open>os.Stat\<close> finds none). The result is the new content of
  \<^verbatim>\<open>constants.go\<close>; on \<open>Inl\<close> the run ended before \<^verbatim>\<open>os.Create\<close>, and no file was written.
\<close>

definition run :: "string \<Rightarrow> string \<Rightarrow> string option \<Rightarrow> error + string" where
  "run pkg input prior =
     (case scan_loop init_state (scanLines input) of
        Inl e \<Rightarrow> Inl e
      | Inr st \<Rightarrow>
          (case (case prior of None \<Rightarrow> Inr emptyConstants
                             | Some content \<Rightarrow> parseConstantsGo content) of
             Inl e \<Rightarrow> Inl e
           | Inr cs \<Rightarrow> Inr (fileHeader pkg @ writeErrs cs (errs st))))"

section \<open>Notions used in the statements\<close>

text \<open>The numeric codes of the records scanned so far, in order.\<close>

definition codes :: "pstate \<Rightarrow> goint list" where
  "codes st = map code (errs st)"

text \<open>The number of error-header lines among \<open>ls\<close>.\<close>

definition headerCount :: "string list \<Rightarrow> nat" where
  "headerCount ls = length (filter (\<lambda>l. classify l = KHeader) ls)"

text \<open>
  What stands between the keyword of a directive and its argument: blanks, commas, tabs
  and equals signs, at least one of them.
\<close>

definition separators :: "string \<Rightarrow> bool" where
  "separators seps =
     (seps \<noteq> [] \<and> list_all (\<lambda>c. c = CHR '' '' \<or> c = CHR '','' \<or> c = HT \<or> c = CHR ''='') seps)"

text \<open>
  A decimal numeral is an optional sign and a nonempty string of decimal digits; the
  integer it denotes is read off its digits from left to right.
\<close>

definition decimalDigits :: "string \<Rightarrow> bool" where
  "decimalDigits ds = (ds \<noteq> [] \<and> list_all (\<lambda>c. c \<in> set ''0123456789'') ds)"

definition decimalValue :: "string \<Rightarrow> int" where
  "decimalValue ds = foldl (\<lambda>a c. 10 * a + (of_char c - 48)) 0 ds"

definition signedValue :: "string \<Rightarrow> string \<Rightarrow> int" where
  "signedValue sg ds = (if sg = ''-'' then - decimalValue ds else decimalValue ds)"

text \<open>
  What a well-formed declaration line \<^verbatim>\<open>const NAME = CODE\<close> adds to the maps: its second
  field under the integer value of its fourth.
\<close>

definition recordConst :: "constants \<Rightarrow> string \<Rightarrow> constants" where
  "recordConst c line = constants_add c (splitSpace line ! 1) (atoi (splitSpace line ! 3))"

text \<open>A line the scanner can hold: shorter than its buffer.\<close>

definition fits :: "string \<Rightarrow> bool" where
  "fits l = (int (length l) < maxScanTokenSize)"

text \<open>The lines of the file header as they are printed, without their newlines.\<close>

definition headerLines :: "string \<Rightarrow> string list" where
  "headerLines pkg =
     [generatedMarker,
      licenseLine1, licenseLine2, licenseLine3, licenseLine4,
      licenseLine5, licenseLine6, licenseLine7,
      ''package '' @ pkg]"

text \<open>
  The names the previous file declares for the code \<open>cd\<close>, one for each declaring line
  and in the order of the lines: the second field of every \<^verbatim>\<open>const\<close> line, among the
  lines the scanner yields, whose fourth field reads as \<open>cd\<close>.
\<close>

definition priorNames :: "string \<Rightarrow> goint \<Rightarrow> string list" where
  "priorNames prior cd =
     map (\<lambda>l. splitSpace l ! 1)
       (filter (\<lambda>l. hasPrefix l ''const '' \<and> atoi (splitSpace l ! 3) = cd) (scanLines prior))"

text \<open>What the generator writes for one record, given the names the code had before.\<close>

definition recordLines :: "string list \<Rightarrow> mysqlError \<Rightarrow> string" where
  "recordLines oldNames e =
     concat (map (\<lambda>n. deprecatedComment @ constDecl n (code e))
               (filter (\<lambda>n. n \<noteq> name e) oldNames))
     @ constDecl (name e) (code e)"

text \<open>The records \<^verbatim>\<open>run\<close> builds from an input (none when the scan fails).\<close>

definition catalog :: "string \<Rightarrow> mysqlError list" where
  "catalog input =
     (case scan_loop init_state (scanLines input) of Inl e \<Rightarrow> [] | Inr st \<Rightarrow> errs st)"

text \<open>No two records with different names have the same code.\<close>

definition oneNamePerCode :: "mysqlError list \<Rightarrow> bool" where
  "oneNamePerCode es = (\<forall>e1 \<in> set es. \<forall>e2 \<in> set es. code e1 = code e2 \<longrightarrow> name e1 = name e2)"

text \<open>A declaration line without its newline.\<close>

definition declLine :: "string \<Rightarrow> goint \<Rightarrow> string" where
  "declLine nm cd = ''const '' @ nm @ '' = '' @ itoa cd"

section \<open>The tokenizer and parseLanguage\<close>

lemma indexAny_takeWhile:
  "(let i = indexAny s cs in if i < 0 then (s, []) else (take (nat i) s, drop (nat i) s))
     = (takeWhile (\<lambda>c. c \<notin> set cs) s, dropWhile (\<lambda>c. c \<notin> set cs) s)"
proof (induction s)
  case Nil
  show ?case by simp
next
  case (Cons a s)
  show ?case
  proof (cases "a \<in> set cs")
    case True
    then show ?thesis by simp
  next
    case False
    from Cons.IH show ?thesis
      using False by (auto simp: Let_def nat_add_distrib split: if_splits)
  qed
qed

lemma consumeWord_takeWhile:
  "consumeWord s = (takeWhile (\<lambda>c. c \<notin> set wordDelims) s, dropWhile (\<lambda>c. c \<notin> set wordDelims) s)"
  unfolding consumeWord_def by (rule indexAny_takeWhile)

lemma trimLeft_dropWhile: "trimLeft s cs = dropWhile (\<lambda>c. c \<in> set cs) s"
  by (induction s) auto

lemma trimDelimiters_dropWhile: "trimDelimiters s = dropWhile (\<lambda>c. c \<in> set trimCutset) s"
  by (simp add: trimDelimiters_def trimLeft_dropWhile)

lemma consumeWord_rest_length: "length (snd (consumeWord s)) \<le> length s"
  by (simp add: consumeWord_takeWhile length_dropWhile_le)

lemma consumeWord_rest_set: "set (snd (consumeWord s)) \<subseteq> set s"
  by (simp add: consumeWord_takeWhile set_dropWhileD subsetI)

lemma consumeWord_rest_shorter:
  "s \<noteq> [] \<Longrightarrow> hd s \<notin> set wordDelims \<Longrightarrow> length (snd (consumeWord s)) < length s"
  by (cases s) (simp_all add: consumeWord_takeWhile length_dropWhile_le less_Suc_eq_le)

lemma trimDelimiters_length: "length (trimDelimiters s) \<le> length s"
  by (simp add: trimDelimiters_dropWhile length_dropWhile_le)

lemma trimDelimiters_set: "set (trimDelimiters s) \<subseteq> set s"
  by (simp add: trimDelimiters_dropWhile set_dropWhileD subsetI)

lemma trimDelimiters_trimmed:
  "trimDelimiters s = [] \<or> hd (trimDelimiters s) \<notin> set trimCutset"
  unfolding trimDelimiters_dropWhile
  by (metis (mono_tags, lifting) hd_dropWhile)

lemma parseLanguage_loop_terminates:
  "CR \<notin> set s \<Longrightarrow> LF \<notin> set s \<Longrightarrow> s = [] \<or> hd s \<notin> set trimCutset
     \<Longrightarrow> \<exists>r. parseLanguage_loop s langs = Some r"
proof (induction "length s" arbitrary: s langs rule: less_induct)
  case less
  show ?case
  proof (cases "hasPrefix s '';'' \<or> s = []")
    case True
    then show ?thesis by (subst parseLanguage_loop.simps) simp
  next
    case False
    then have ne: "s \<noteq> []" by simp
    with less.prems have "hd s \<notin> set trimCutset" by simp
    moreover from ne less.prems have "hd s \<noteq> CR" "hd s \<noteq> LF" by (metis hd_in_set)+
    ultimately have hd: "hd s \<notin> set wordDelims" by (simp add: wordDelims_def trimCutset_def)
    define x1 where "x1 = trimDelimiters (snd (consumeWord s))"
    define x2 where "x2 = trimDelimiters (snd (consumeWord x1))"
    define s' where "s' = trimDelimiters (snd (consumeWord x2))"
    define l where "l = \<lparr>longName = fst (consumeWord s), shortName = fst (consumeWord x1),
                          charset = fst (consumeWord x2)\<rparr>"
    have len1: "length x1 < length s"
      unfolding x1_def using consumeWord_rest_shorter [OF ne hd] trimDelimiters_length
      by (meson le_less_trans)
    have len2: "length x2 \<le> length x1"
      unfolding x2_def using consumeWord_rest_length trimDelimiters_length
      by (meson le_trans)
    have len3: "length s' \<le> length x2"
      unfolding s'_def using consumeWord_rest_length trimDelimiters_length
      by (meson le_trans)
    have set1: "set x1 \<subseteq> set s"
      unfolding x1_def using consumeWord_rest_set trimDelimiters_set by (meson subset_trans)
    have set2: "set x2 \<subseteq> set x1"
      unfolding x2_def using consumeWord_rest_set trimDelimiters_set by (meson subset_trans)
    have set3: "set s' \<subseteq> set x2"
      unfolding s'_def using consumeWord_rest_set trimDelimiters_set by (meson subset_trans)
    from set1 set2 set3 less.prems have nocr: "CR \<notin> set s'" "LF \<notin> set s'" by auto
    have trimmed: "s' = [] \<or> hd s' \<notin> set trimCutset"
      unfolding s'_def by (rule trimDelimiters_trimmed)
    from len1 len2 len3 have "length s' < length s" by simp
    from less.hyps [OF this nocr trimmed]
    obtain r where "parseLanguage_loop s' (langs @ [l]) = Some r" by blast
    moreover have "parseLanguage_loop s langs = parseLanguage_loop s' (langs @ [l])"
      using False
      by (subst parseLanguage_loop.simps)
         (simp add: Let_def split_def x1_def x2_def s'_def l_def)
    ultimately show ?thesis by simp
  qed
qed

text \<open>
  On a line without carriage return and line feed every iteration of the loop in
  parseLanguage consumes at least one byte, and the call returns.
\<close>

theorem parseLanguage_terminates:
  "CR \<notin> set s \<Longrightarrow> LF \<notin> set s \<Longrightarrow> \<exists>r. parseLanguage s = Some r"
proof -
  assume a: "CR \<notin> set s" "LF \<notin> set s"
  define s2 where "s2 = trimDelimiters (snd (consumeWord s))"
  have "set s2 \<subseteq> set s"
    unfolding s2_def using consumeWord_rest_set trimDelimiters_set by (meson subset_trans)
  with a have "CR \<notin> set s2" "LF \<notin> set s2" by auto
  moreover have "s2 = [] \<or> hd s2 \<notin> set trimCutset"
    unfolding s2_def by (rule trimDelimiters_trimmed)
  ultimately have "\<exists>r. parseLanguage_loop s2 [] = Some r"
    by (rule parseLanguage_loop_terminates)
  then show ?thesis by (simp add: parseLanguage_def Let_def split_def s2_def)
qed

text \<open>
  A carriage return is a delimiter for consumeWord and is not in the cutset of
  trimDelimiters: at a carriage return all three words of an iteration are empty and the
  rest of the line stays as it is.
\<close>

lemma consumeWord_at_CR: "consumeWord (CR # s) = ([], CR # s)"
  by (simp add: consumeWord_def wordDelims_def)

lemma trimDelimiters_at_CR: "trimDelimiters (CR # s) = CR # s"
  by (simp add: trimDelimiters_def trimCutset_def)

lemma parseLanguage_loop_not_CR:
  assumes "parseLanguage_loop t ls = Some y"
  shows "t \<noteq> CR # s"
proof (rule parseLanguage_loop.raw_induct [where P = "\<lambda>t ls y. t \<noteq> CR # s", OF _ assms])
  fix loop :: "string \<Rightarrow> language list \<Rightarrow> language list option"
  fix t' :: string and ls' y' :: "language list"
  assume IH: "\<And>t ls y. loop t ls = Some y \<Longrightarrow> t \<noteq> CR # s"
  assume "(if hasPrefix t' '';'' \<or> t' = [] then Some ls'
           else let (longName, x) = consumeWord t'; x = trimDelimiters x;
                    (shortName, x) = consumeWord x; x = trimDelimiters x;
                    (charset, x) = consumeWord x; s' = trimDelimiters x
                in loop s' (ls' @ [\<lparr>longName = longName, shortName = shortName,
                                       charset = charset\<rparr>])) = Some y'"
  then have "t' = CR # s \<Longrightarrow>
      loop (CR # s) (ls' @ [\<lparr>longName = [], shortName = [], charset = []\<rparr>]) = Some y'"
    by (simp add: hasPrefix_def consumeWord_at_CR trimDelimiters_at_CR)
  then show "t' \<noteq> CR # s"
    using IH by blast
qed

lemma parseLanguage_loop_stuck: "parseLanguage_loop (CR # s) langs = None"
  using parseLanguage_loop_not_CR [of "CR # s" langs _ s]
  by (cases "parseLanguage_loop (CR # s) langs") auto

text \<open>
  Claim C10. parseLanguage on the line \<^verbatim>\<open>language\<close>, blank, carriage return, \<^verbatim>\<open>x\<close>:
  after the keyword the rest begins with the carriage return, every iteration appends an
  empty language and leaves the rest unchanged, and the loop never reaches its exit.
\<close>

theorem parseLanguage_diverges:
  "parseLanguage (''language '' @ [CR] @ ''x'') = None"
  by (simp add: parseLanguage_def consumeWord_def trimDelimiters_def wordDelims_def trimCutset_def
        parseLanguage_loop_stuck)

section \<open>The escape decoder\<close>

text \<open>
  Claim C1. The specification's three decoding examples, run on parseQuoted (the argument
  is the text after the opening quote, up to and including the closing quote). The
  literal \<^verbatim>\<open>a\nb\<close> decodes to \<open>a\<close>, newline, \<open>b\<close>. The octal examples do not decode to
  what the claim says: the exit test of the octal loop can never hold, so the loop always
  takes three runes, digits or not, and the outer loop's \<^verbatim>\<open>i++\<close> then skips one rune more.
  For \<^verbatim>\<open>\101"\<close> the three digits give byte 65 but the skipped rune is the closing quote;
  for \<^verbatim>\<open>\7x"\<close> the loop consumes \<open>7\<close>, \<open>x\<close> and the closing quote. Both calls end in the
  "unexpected EOL" error (a panic in the earlier version) instead of returning a text.
\<close>

theorem parseQuoted_spec_examples:
  "parseQuoted (''a'' @ [BSL] @ ''nb'' @ [DQ]) = Inr [CHR ''a'', LF, CHR ''b'']
   \<and> parseQuoted ([BSL] @ ''101'' @ [DQ]) = Inl QuoteEOL
   \<and> parseQuoted ([BSL] @ ''7x'' @ [DQ]) = Inl QuoteEOL
   \<and> parseQuoted_v0 ([BSL] @ ''101'' @ [DQ]) = Inl PanicQuoteEOL
   \<and> parseQuoted_v0 ([BSL] @ ''7x'' @ [DQ]) = Inl PanicQuoteEOL"
  by code_simp

subsection \<open>A literal without any quote\<close>

lemma parseQuoted_loop_no_quote:
  "\<forall>k < length r. r ! k \<noteq> 34 \<Longrightarrow> parseQuoted_loop r i b = None"
proof (induction r i b rule: parseQuoted_loop.induct)
  case (1 r i b)
  show ?case
    using "1.prems" "1.IH"
    by (subst parseQuoted_loop.simps) (auto split: prod.splits)
qed

lemma of_char_quote: "(of_char c :: nat) = 34 \<Longrightarrow> c = DQ"
proof -
  assume "(of_char c :: nat) = 34"
  moreover have "(of_char DQ :: nat) = 34" by simp
  ultimately have "(of_char c :: nat) = of_char DQ" by simp
  then show ?thesis by (simp only: of_char_eq_iff)
qed

lemma mod_shift: "k < n \<Longrightarrow> (k + n * q) mod n = (k::nat)"
  by simp

lemma lead2: "194 \<le> (b0::nat) \<Longrightarrow> b0 \<le> 223 \<Longrightarrow> 2 \<le> b0 mod 32"
proof -
  assume a: "194 \<le> b0" "b0 \<le> 223"
  define k where "k = b0 - 192"
  from a have "b0 = k + 32 * 6" "k < 32" "2 \<le> k" by (simp_all add: k_def)
  then show ?thesis by (simp only: mod_shift)
qed

lemma lead3: "225 \<le> (b0::nat) \<Longrightarrow> b0 \<le> 239 \<Longrightarrow> 1 \<le> b0 mod 16"
proof -
  assume a: "225 \<le> b0" "b0 \<le> 239"
  define k where "k = b0 - 224"
  from a have "b0 = k + 16 * 14" "k < 16" "1 \<le> k" by (simp_all add: k_def)
  then show ?thesis by (simp only: mod_shift)
qed

lemma lead4: "241 \<le> (b0::nat) \<Longrightarrow> b0 \<le> 244 \<Longrightarrow> 1 \<le> b0 mod 8"
proof -
  assume a: "241 \<le> b0" "b0 \<le> 244"
  define k where "k = b0 - 240"
  from a have "b0 = k + 8 * 30" "k < 8" "1 \<le> k" by (simp_all add: k_def)
  then show ?thesis by (simp only: mod_shift)
qed

lemma second3: "160 \<le> (b1::nat) \<Longrightarrow> b1 \<le> 191 \<Longrightarrow> 32 \<le> b1 mod 64"
proof -
  assume a: "160 \<le> b1" "b1 \<le> 191"
  define k where "k = b1 - 128"
  from a have "b1 = k + 64 * 2" "k < 64" "32 \<le> k" by (simp_all add: k_def)
  then show ?thesis by (simp only: mod_shift)
qed

lemma second4: "144 \<le> (b1::nat) \<Longrightarrow> b1 \<le> 191 \<Longrightarrow> 16 \<le> b1 mod 64"
proof -
  assume a: "144 \<le> b1" "b1 \<le> 191"
  define k where "k = b1 - 128"
  from a have "b1 = k + 64 * 2" "k < 64" "16 \<le> k" by (simp_all add: k_def)
  then show ?thesis by (simp only: mod_shift)
qed

lemma decode2_ge: "194 \<le> b0 \<Longrightarrow> b0 \<le> 223 \<Longrightarrow> 128 \<le> fst (decode2 b0 b1)"
proof -
  assume "194 \<le> b0" "b0 \<le> 223"
  then have "2 \<le> b0 mod 32" by (rule lead2)
  then have "128 \<le> b0 mod 32 * 64 + b1 mod 64" by simp
  then show ?thesis by (simp add: decode2_def)
qed

lemma three_bytes_ge:
  assumes "224 \<le> b0" "b0 \<le> 239" "acceptLo b0 \<le> b1" "b1 \<le> acceptHi b0"
  shows "128 \<le> b0 mod 16 * 4096 + b1 mod 64 * 64 + (x :: nat)"
proof (cases "b0 = 224")
  case True
  with assms have "160 \<le> b1" "b1 \<le> 191" by (simp_all add: acceptLo_def acceptHi_def)
  then have "32 \<le> b1 mod 64" by (rule second3)
  then show ?thesis by simp
next
  case False
  with assms have "1 \<le> b0 mod 16" by (intro lead3) simp_all
  then show ?thesis by simp
qed

lemma four_bytes_ge:
  assumes "240 \<le> b0" "b0 \<le> 244" "acceptLo b0 \<le> b1" "b1 \<le> acceptHi b0"
  shows "128 \<le> b0 mod 8 * 262144 + b1 mod 64 * 4096 + (x :: nat)"
proof (cases "b0 = 240")
  case True
  with assms have "144 \<le> b1" "b1 \<le> 191" by (simp_all add: acceptLo_def acceptHi_def)
  then have "16 \<le> b1 mod 64" by (rule second4)
  then show ?thesis by simp
next
  case False
  with assms have "1 \<le> b0 mod 8" by (intro lead4) simp_all
  then show ?thesis by simp
qed

lemma decode3_ge: "224 \<le> b0 \<Longrightarrow> b0 \<le> 239 \<Longrightarrow> 128 \<le> fst (decode3 b0 b1 rest)"
  using three_bytes_ge [of b0 b1]
  by (cases rest) (simp_all add: decode3_def)

lemma decode4_ge: "240 \<le> b0 \<Longrightarrow> b0 \<le> 244 \<Longrightarrow> 128 \<le> fst (decode4 b0 b1 rest)"
  using four_bytes_ge [of b0 b1]
  by (cases rest) (simp_all add: decode4_def add.assoc split: list.splits)

text \<open>A rune decoded from a byte that is not ASCII is not an ASCII code point.\<close>

lemma decodeRune_multibyte:
  assumes "128 \<le> (of_char c :: nat)"
  shows "128 \<le> fst (decodeRune (c # cs))"
proof (cases cs)
  case Nil
  with assms show ?thesis by (simp add: Let_def)
next
  case (Cons c1 rest)
  with assms show ?thesis
    by (simp add: Let_def decode2_ge decode3_ge decode4_ge)
qed

lemma decodeRune_ascii:
  "(of_char c :: nat) < 128 \<Longrightarrow> fst (decodeRune (c # cs)) = of_char c"
  by (cases cs) (simp_all add: Let_def)

lemma decodeRune_quote: "fst (decodeRune (c # cs)) = 34 \<Longrightarrow> c = DQ"
proof (cases "(of_char c :: nat) < 128")
  case True
  assume "fst (decodeRune (c # cs)) = 34"
  with True show ?thesis by (simp add: decodeRune_ascii of_char_quote)
next
  case False
  assume a: "fst (decodeRune (c # cs)) = 34"
  from False have "128 \<le> fst (decodeRune (c # cs))" by (intro decodeRune_multibyte) simp
  with a show ?thesis by simp
qed

lemma runes_from_quote: "34 \<in> set (runes_from k s) \<Longrightarrow> DQ \<in> set s"
proof (induction k s rule: runes_from.induct)
  case (1 k)
  then show ?case by simp
next
  case (2 k c cs)
  then show ?case by simp
next
  case (3 c cs)
  obtain r w where dr: "decodeRune (c # cs) = (r, w)" by force
  with "3.prems" have "r = 34 \<or> 34 \<in> set (runes_from (w - 1) cs)" by auto
  then show ?case
  proof
    assume "r = 34"
    with dr decodeRune_quote [of c cs] show ?thesis by simp
  next
    assume "34 \<in> set (runes_from (w - 1) cs)"
    from "3.IH" [OF refl dr [symmetric] this] show ?thesis by simp
  qed
qed

lemma parseQuoted_no_quote: "DQ \<notin> set s \<Longrightarrow> parseQuoted s = Inl QuoteEOL"
proof -
  assume "DQ \<notin> set s"
  then have "34 \<notin> set (runes s)" using runes_from_quote [of 0 s] by (auto simp: runes_def)
  then have "\<forall>k < length (runes s). runes s ! k \<noteq> 34" by (metis nth_mem)
  then show ?thesis by (simp add: parseQuoted_def parseQuoted_loop_no_quote)
qed

text \<open>
  A message line whose text after the opening quote holds no quote at all ends the run in
  the "parse quote" error with the line.
\<close>

lemma message_without_closing_quote:
  assumes "classify line = KMessage" "splitMessage line = (lang, DQ # lit)" "DQ \<notin> set lit"
  shows "step st line = Inl (ParseQuote line QuoteEOL)"
  using assms by (simp add: step_def hasPrefix_def parseQuoted_no_quote)

text \<open>
  Claim C8. A header line \<^verbatim>\<open>ER_X\<close> and the message line tab, \<^verbatim>\<open>eng "\123\"\<close>: after the
  opening quote come an octal escape and an escaped quote, and no closing quote. The run
  does not abort: the octal case leaves the index on the backslash, \<^verbatim>\<open>i++\<close> skips it, and
  the quote that follows is taken for the closing one. The message \<open>S\<close> (byte 83, octal
  123) is appended to the record.
\<close>

theorem escaped_quote_after_octal_closes:
  "scan_loop init_state [''ER_X'', [HT] @ ''eng '' @ [DQ, BSL] @ ''123'' @ [BSL, DQ]]
     = Inr (init_state\<lparr>rCount := 1,
              errs := [\<lparr>name = ''ER_X'', code = 1000, sqlState = [], odbcState = [],
                        messages = [\<lparr>langShortName = ''eng'', msgText = ''S''\<rparr>],
                        obsolete = False\<rparr>]\<rparr>)"
  by code_simp

section \<open>The scanning loop\<close>

subsection \<open>A line that declares the numbering offset\<close>

lemma consumeWord_append:
  assumes "set w \<inter> set wordDelims = {}" "d \<in> set wordDelims"
  shows "consumeWord (w @ d # rest) = (w, d # rest)"
proof -
  from assms(1) have "\<forall>c \<in> set w. c \<notin> set wordDelims" by auto
  with assms(2) show ?thesis
    by (simp add: consumeWord_takeWhile takeWhile_append2 dropWhile_append2)
qed

lemma trimDelimiters_append:
  assumes "set seps \<subseteq> set trimCutset" "x \<notin> set trimCutset"
  shows "trimDelimiters (seps @ x # rest) = x # rest"
proof -
  from assms(1) have "\<forall>c \<in> set seps. c \<in> set trimCutset" by auto
  with assms(2) show ?thesis
    by (simp add: trimDelimiters_dropWhile dropWhile_append2)
qed

lemma trimCutset_wordDelims: "c \<in> set trimCutset \<Longrightarrow> c \<in> set wordDelims"
  by (auto simp: trimCutset_def wordDelims_def)

text \<open>Atoi on a decimal numeral that denotes a 64-bit integer gives that integer.\<close>

lemma digit_isDigit:
  assumes "c \<in> set ''0123456789''"
  shows "isDigit c" "0 \<le> (of_char c :: int) - 48" "(of_char c :: int) - 48 \<le> 9"
  using assms by (auto simp: isDigit_def)

lemma digit_not_delim:
  assumes "c \<in> set ''0123456789''"
  shows "c \<notin> set wordDelims" "c \<noteq> CHR ''+''" "c \<noteq> CHR ''-''"
  using assms by (auto simp: wordDelims_def)

lemma foldl_decimal_mono:
  "list_all (\<lambda>c. c \<in> set ''0123456789'') ds \<Longrightarrow> 0 \<le> n \<Longrightarrow>
     n \<le> foldl (\<lambda>a c. 10 * a + (of_char c - 48)) (n :: int) ds"
proof (induction ds arbitrary: n)
  case Nil
  show ?case by simp
next
  case (Cons c ds)
  from Cons.prems have d: "c \<in> set ''0123456789''" and r: "list_all (\<lambda>c. c \<in> set ''0123456789'') ds"
    by simp_all
  from digit_isDigit(2) [OF d] Cons.prems(2) have "0 \<le> 10 * n + (of_char c - 48)" by linarith
  from Cons.IH [OF r this] digit_isDigit(2) [OF d] Cons.prems(2) show ?case by simp
qed

lemma parseUint_loop_decimal:
  "list_all (\<lambda>c. c \<in> set ''0123456789'') ds \<Longrightarrow> 0 \<le> n \<Longrightarrow>
     foldl (\<lambda>a c. 10 * a + (of_char c - 48)) n ds \<le> 18446744073709551615 \<Longrightarrow>
     parseUint_loop ds n = UOk (foldl (\<lambda>a c. 10 * a + (of_char c - 48)) n ds)"
proof (induction ds arbitrary: n)
  case Nil
  show ?case by simp
next
  case (Cons c ds)
  from Cons.prems have d: "c \<in> set ''0123456789''" and r: "list_all (\<lambda>c. c \<in> set ''0123456789'') ds"
    by simp_all
  define n1 where "n1 = 10 * n + ((of_char c :: int) - 48)"
  from digit_isDigit(2) [OF d] Cons.prems(2) have n1: "0 \<le> n1" "10 * n \<le> n1"
    by (simp_all add: n1_def)
  from foldl_decimal_mono [OF r n1(1)] Cons.prems(3)
  have le: "n1 \<le> 18446744073709551615" by (simp add: n1_def)
  with n1(2) have small: "\<not> n \<ge> 1844674407370955162" by linarith
  from Cons.prems(3) have "foldl (\<lambda>a c. 10 * a + (of_char c - 48)) n1 ds \<le> 18446744073709551615"
    by (simp add: n1_def)
  from Cons.IH [OF r n1(1) this] small le digit_isDigit(1) [OF d] show ?case
    by (simp add: n1_def Let_def mult.commute)
qed

lemma atoi_decimal:
  assumes ds: "decimalDigits ds" and sgs: "sg \<in> {[], ''+'', ''-''}"
    and v: "sint w = signedValue sg ds"
  shows "atoi (sg @ ds) = w"
proof -
  from ds obtain c cs where c: "ds = c # cs" and d: "c \<in> set ''0123456789''"
    and all: "list_all (\<lambda>c. c \<in> set ''0123456789'') ds"
    by (cases ds) (auto simp: decimalDigits_def)
  have nonneg: "0 \<le> decimalValue ds"
    using foldl_decimal_mono [OF all, of 0] by (simp add: decimalValue_def)
  have range: "- (2 ^ 63) \<le> sint w" "sint w < 2 ^ 63"
    using sint_ge [of w] sint_lt [of w] by simp_all
  have w: "w = word_of_int (sint w)" by simp
  show ?thesis
  proof (cases "sg = ''-''")
    case True
    with v have val: "decimalValue ds = - sint w" by (simp add: signedValue_def)
    with range have le: "decimalValue ds \<le> 2 ^ 63" by simp
    then have "foldl (\<lambda>a c. 10 * a + (of_char c - 48)) 0 ds \<le> (18446744073709551615 :: int)"
      by (simp add: decimalValue_def)
    from parseUint_loop_decimal [OF all _ this]
    have "parseUint_loop ds 0 = UOk (decimalValue ds)" by (simp add: decimalValue_def)
    with True le c have "atoi (sg @ ds) = word_of_int (- decimalValue ds)"
      by (simp add: atoi_def Let_def)
    with val w show ?thesis by simp
  next
    case False
    with v have val: "decimalValue ds = sint w" by (simp add: signedValue_def)
    with range have lt: "decimalValue ds < 2 ^ 63" by simp
    then have "foldl (\<lambda>a c. 10 * a + (of_char c - 48)) 0 ds \<le> (18446744073709551615 :: int)"
      by (simp add: decimalValue_def)
    from parseUint_loop_decimal [OF all _ this]
    have p: "parseUint_loop ds 0 = UOk (decimalValue ds)" by (simp add: decimalValue_def)
    from False sgs have "sg = [] \<or> sg = ''+''" by auto
    then have "atoi (sg @ ds) = word_of_int (decimalValue ds)"
    proof
      assume "sg = []"
      with p lt c digit_not_delim(2,3) [OF d] show ?thesis
        by (simp add: atoi_def Let_def)
    next
      assume "sg = ''+''"
      with p lt c show ?thesis by (simp add: atoi_def Let_def)
    qed
    with val w show ?thesis by simp
  qed
qed

text \<open>
  A \<^verbatim>\<open>start-error-number\<close> line that holds the keyword, separators and a decimal numeral
  sets the offset to the integer the numeral denotes, and the running count to 0.
\<close>

lemma directiveArg_declaration:
  assumes seps: "separators seps"
    and num: "num \<noteq> []" "set num \<inter> set wordDelims = {}"
  shows "directiveArg (''start-error-number'' @ seps @ num) = (num, [])"
proof -
  from seps obtain s ss where s: "seps = s # ss" by (cases seps) (auto simp: separators_def)
  from seps have cut: "set seps \<subseteq> set trimCutset"
    by (auto simp: separators_def trimCutset_def list_all_iff)
  obtain x xs where x: "num = x # xs" using num(1) by (cases num) auto
  from s cut have sd: "s \<in> set wordDelims" by (simp add: trimCutset_wordDelims)
  from x num(2) have xt: "x \<notin> set trimCutset" using trimCutset_wordDelims by auto
  have "set ''start-error-number'' \<inter> set wordDelims = {}" by (simp add: wordDelims_def)
  from consumeWord_append [OF this sd, of "ss @ num"]
  have w1: "consumeWord (''start-error-number'' @ seps @ num) = (''start-error-number'', seps @ num)"
    by (simp add: s)
  have w2: "trimDelimiters (seps @ num) = num"
    using trimDelimiters_append [OF cut xt, of xs] by (simp add: x)
  from num(2) have "\<forall>c \<in> set num. c \<notin> set wordDelims" by auto
  then have w3: "consumeWord num = (num, [])"
    by (simp add: consumeWord_takeWhile)
  show ?thesis by (simp only: directiveArg_def w1 w2 w3 Let_def split_conv)
qed

lemma step_declaration:
  assumes "separators seps" "sg \<in> {[], ''+'', ''-''}" "decimalDigits ds"
    and "sint w = signedValue sg ds"
  shows "step st (''start-error-number'' @ seps @ sg @ ds)
           = Inr (st\<lparr>errorCodeOffset := w, rCount := 0\<rparr>)"
proof -
  from assms(3) have dd: "ds \<noteq> []" "\<forall>c \<in> set ds. c \<in> set ''0123456789''"
    by (simp_all add: decimalDigits_def list_all_iff)
  have "set ds \<inter> set wordDelims = {}"
    using dd(2) digit_not_delim(1) by blast
  moreover from assms(2) have "set sg \<inter> set wordDelims = {}" by (auto simp: wordDelims_def)
  ultimately have "set (sg @ ds) \<inter> set wordDelims = {}" by auto
  from directiveArg_declaration [OF assms(1) _ this] dd(1)
  have arg: "directiveArg (''start-error-number'' @ seps @ sg @ ds) = (sg @ ds, [])" by simp
  have kind: "classify (''start-error-number'' @ seps @ sg @ ds) = KStartErrorNumber"
    by (simp add: classify_def hasPrefix_def)
  show ?thesis
    by (simp only: step_def kind lineKind.case arg split_conv Let_def atoi_decimal [OF assms(3,2,4)])
       simp
qed


subsection \<open>Numbering of the error codes\<close>

lemma scan_loop_append:
  "scan_loop st (xs @ ys) =
     (case scan_loop st xs of Inl e \<Rightarrow> Inl e | Inr st' \<Rightarrow> scan_loop st' ys)"
  by (induction xs arbitrary: st) (auto split: sum.splits)

lemma appendMessage_keeps:
  assumes "appendMessage st m = Inr st'" and "\<And>e ms. f (e\<lparr>messages := ms\<rparr>) = f e"
  shows "map f (errs st') = map f (errs st)"
proof -
  from assms(1) have ne: "errs st \<noteq> []"
    by (auto simp: appendMessage_def split: if_splits)
  then have "map f (butlast (errs st)) @ [f (last (errs st))] = map f (errs st)"
    by (metis (no_types, lifting) append_butlast_last_id list.simps(8,9) map_append)
  with assms ne show ?thesis
    by (auto simp: appendMessage_def Let_def split: if_splits)
qed

lemma appendMessage_numbering:
  assumes "appendMessage st m = Inr st'"
  shows "errorCodeOffset st' = errorCodeOffset st \<and> rCount st' = rCount st \<and> codes st' = codes st"
proof -
  from appendMessage_keeps [OF assms, of code] have "codes st' = codes st"
    by (simp add: codes_def)
  with assms show ?thesis
    by (auto simp: appendMessage_def Let_def split: if_splits)
qed

lemma step_other_numbering:
  assumes "step st l = Inr st'" "classify l \<noteq> KHeader" "classify l \<noteq> KStartErrorNumber"
  shows "errorCodeOffset st' = errorCodeOffset st \<and> rCount st' = rCount st \<and> codes st' = codes st"
proof (cases "classify l")
  case KMessage
  with assms(1) obtain m where "appendMessage st m = Inr st'"
    by (auto simp: step_def Let_def split_def split: if_splits sum.splits)
  then show ?thesis by (rule appendMessage_numbering)
qed (use assms in \<open>auto simp: step_def codes_def Let_def split_def split: if_splits option.splits\<close>)

lemma step_header_numbering:
  assumes "step st l = Inr st'" "classify l = KHeader"
  shows "errorCodeOffset st' = errorCodeOffset st \<and> rCount st' = rCount st + 1
         \<and> codes st' = codes st @ [errorCodeOffset st + rCount st]"
  using assms by (auto simp: step_def newRecord_def codes_def Let_def split_def)

lemma step_offset_numbering:
  assumes "step st l = Inr st'" "classify l = KStartErrorNumber"
  shows "rCount st' = 0 \<and> codes st' = codes st"
  using assms
  by (auto simp: step_def codes_def Let_def split_def split: if_splits)

lemma scan_loop_codes:
  "scan_loop st ls = Inr st' \<Longrightarrow>
     \<exists>ys. codes st' = codes st @ ys \<and> length ys = headerCount ls"
proof (induction ls arbitrary: st)
  case Nil
  then show ?case by (simp add: headerCount_def)
next
  case (Cons l ls)
  from Cons.prems obtain st1 where s1: "step st l = Inr st1" and s2: "scan_loop st1 ls = Inr st'"
    by (auto split: sum.splits)
  from Cons.IH [OF s2] obtain ys where ys: "codes st' = codes st1 @ ys" "length ys = headerCount ls"
    by blast
  show ?case
  proof (cases "classify l = KHeader")
    case True
    from step_header_numbering [OF s1 True] ys True show ?thesis
      by (auto simp: headerCount_def)
  next
    case False
    have "codes st1 = codes st"
    proof (cases "classify l = KStartErrorNumber")
      case True
      from step_offset_numbering [OF s1 True] show ?thesis by simp
    next
      case no: False
      from step_other_numbering [OF s1 False no] show ?thesis by simp
    qed
    with ys False show ?thesis by (auto simp: headerCount_def)
  qed
qed

lemma scan_loop_no_offset:
  "scan_loop st ls = Inr st' \<Longrightarrow> \<forall>l \<in> set ls. classify l \<noteq> KStartErrorNumber \<Longrightarrow>
     errorCodeOffset st' = errorCodeOffset st \<and> rCount st' = rCount st + of_nat (headerCount ls)"
proof (induction ls arbitrary: st)
  case Nil
  then show ?case by (simp add: headerCount_def)
next
  case (Cons l ls)
  from Cons.prems obtain st1 where s1: "step st l = Inr st1" and s2: "scan_loop st1 ls = Inr st'"
    by (auto split: sum.splits)
  from Cons.prems have no: "classify l \<noteq> KStartErrorNumber"
    and rest: "\<forall>l \<in> set ls. classify l \<noteq> KStartErrorNumber" by auto
  note IH = Cons.IH [OF s2 rest]
  show ?case
  proof (cases "classify l = KHeader")
    case True
    from step_header_numbering [OF s1 True] IH True show ?thesis
      by (simp add: headerCount_def)
  next
    case False
    from step_other_numbering [OF s1 False no] IH False show ?thesis
      by (simp add: headerCount_def)
  qed
qed

text \<open>
  Claim C2. Let the scan of the whole input succeed, let \<open>hdr\<close> be an error-header line,
  \<open>mid\<close> the lines between the most recent \<^verbatim>\<open>start-error-number\<close> line and \<open>hdr\<close>, and \<open>pre\<close>
  the lines up to and including that declaration (\<open>pre\<close> is empty when there is none).
  The declaration is written out: the keyword, separators, and a decimal numeral (an
  optional sign \<open>sg\<close> and the digits \<open>ds\<close>) that denotes the 64-bit integer \<open>offset\<close>;
  without a declaration \<open>offset\<close> is 1000. Then the record of \<open>hdr\<close> (the records are in
  the order of the header lines) has the code \<open>offset + (N - 1)\<close>, where \<open>N - 1\<close> is the
  number of header lines in \<open>mid\<close>. With no header in \<open>mid\<close> the code is the offset
  itself. The sum is Go's addition on \<^verbatim>\<open>int\<close>.
\<close>

theorem header_code_numbering:
  assumes run: "scan_loop init_state (pre @ mid @ [hdr] @ post) = Inr fin"
    and hdr: "classify hdr = KHeader"
    and mid: "\<forall>l \<in> set mid. classify l \<noteq> KStartErrorNumber"
    and pre: "pre = [] \<and> offset = 1000
              \<or> pre = pre0 @ [''start-error-number'' @ seps @ sg @ ds]
                \<and> separators seps \<and> sg \<in> {[], ''+'', ''-''} \<and> decimalDigits ds
                \<and> sint offset = signedValue sg ds"
  shows "headerCount (pre @ mid) < length (errs fin)
         \<and> code (errs fin ! headerCount (pre @ mid)) = offset + of_nat (headerCount mid)"
proof -
  from run obtain s1 s2 s3 where
      p1: "scan_loop init_state pre = Inr s1"
    and p2: "scan_loop s1 mid = Inr s2"
    and p3: "step s2 hdr = Inr s3"
    and p4: "scan_loop s3 post = Inr fin"
    by (auto simp: scan_loop_append split: sum.splits)
  from pre have off1: "errorCodeOffset s1 = offset \<and> rCount s1 = 0"
  proof
    assume "pre = [] \<and> offset = 1000"
    with p1 show ?thesis by (auto simp: init_state_def)
  next
    assume a: "pre = pre0 @ [''start-error-number'' @ seps @ sg @ ds]
                \<and> separators seps \<and> sg \<in> {[], ''+'', ''-''} \<and> decimalDigits ds
                \<and> sint offset = signedValue sg ds"
    with p1 obtain s0 where "step s0 (''start-error-number'' @ seps @ sg @ ds) = Inr s1"
      by (auto simp: scan_loop_append split: sum.splits)
    moreover from a have "step s0 (''start-error-number'' @ seps @ sg @ ds)
                            = Inr (s0\<lparr>errorCodeOffset := offset, rCount := 0\<rparr>)"
      by (intro step_declaration) simp_all
    ultimately show ?thesis by auto
  qed
  from scan_loop_no_offset [OF p2 mid] off1
  have off2: "errorCodeOffset s2 = offset" "rCount s2 = of_nat (headerCount mid)" by simp_all
  from scan_loop_codes [OF p1] have c1: "length (codes s1) = headerCount pre"
    by (auto simp: codes_def init_state_def)
  from scan_loop_codes [OF p2] c1 have c2: "length (codes s2) = headerCount (pre @ mid)"
    by (auto simp: headerCount_def)
  from step_header_numbering [OF p3 hdr]
  have c3: "codes s3 = codes s2 @ [errorCodeOffset s2 + rCount s2]" by simp
  from scan_loop_codes [OF p4] obtain ys where c4: "codes fin = codes s3 @ ys" by blast
  from c2 c3 c4 have len: "headerCount (pre @ mid) < length (codes fin)" by simp
  from c2 c3 c4 have "codes fin ! headerCount (pre @ mid) = errorCodeOffset s2 + rCount s2"
    by (simp add: nth_append)
  with len off2 show ?thesis by (simp add: codes_def)
qed

theorem header_code_numbering_witness:
  "\<exists>fin. scan_loop init_state
            [''ER_A'', ''start-error-number 3000'', ''# note'', ''ER_B'', ''WARN_C'', ''ER_D'']
          = Inr fin
        \<and> map name (errs fin) = [''ER_A'', ''ER_B'', ''WARN_C'', ''ER_D'']
        \<and> code (errs fin ! 2) = 3001"
proof -
  define fin where "fin = projr (scan_loop init_state
      [''ER_A'', ''start-error-number 3000'', ''# note'', ''ER_B'', ''WARN_C'', ''ER_D''])"
  define pre where "pre = [''ER_A''] @ [''start-error-number'' @ '' '' @ [] @ ''3000'']"
  have run: "scan_loop init_state (pre @ [''# note'', ''ER_B'']
               @ [''WARN_C''] @ [''ER_D'']) = Inr fin"
    unfolding fin_def pre_def by code_simp
  have names: "map name (errs fin) = [''ER_A'', ''ER_B'', ''WARN_C'', ''ER_D'']"
    unfolding fin_def by code_simp
  have hdr: "classify ''WARN_C'' = KHeader" by code_simp
  have mid: "\<forall>l \<in> set [''# note'', ''ER_B'']. classify l \<noteq> KStartErrorNumber" by code_simp
  have decl: "pre = [] \<and> (3000 :: goint) = 1000
              \<or> pre = [''ER_A''] @ [''start-error-number'' @ '' '' @ [] @ ''3000'']
                \<and> separators '' '' \<and> [] \<in> {[], ''+'', ''-''} \<and> decimalDigits ''3000''
                \<and> sint (3000 :: goint) = signedValue [] ''3000''"
    by (simp add: pre_def separators_def decimalDigits_def signedValue_def decimalValue_def)
  have hc: "headerCount (pre @ [''# note'', ''ER_B'']) = 2"
    "headerCount [''# note'', ''ER_B''] = 1"
    by (simp_all add: pre_def headerCount_def classify_def hasPrefix_def)
  from header_code_numbering [OF run hdr mid decl]
  have "code (errs fin ! 2) = 3001"
    unfolding hc by simp
  with run names show ?thesis by (simp add: pre_def)
qed

subsection \<open>A message line before any header\<close>

text \<open>
  Claim C6. A well-formed message line that comes before any header line: the input whose
  only line is a tab, \<^verbatim>\<open>eng "hello"\<close>. The message is decoded, then
  \<^verbatim>\<open>errs[len(errs)-1]\<close> is read on the empty slice: the run ends in Go's runtime panic
  "index out of range", which carries no line of the input, and not in a returned format
  error.
\<close>

theorem message_before_header_panics:
  "scan_loop init_state [[HT] @ ''eng '' @ [DQ] @ ''hello'' @ [DQ]] = Inl PanicIndexOutOfRange
   \<and> run ''mysqlerr'' ([HT] @ ''eng '' @ [DQ] @ ''hello'' @ [DQ, LF]) None
       = Inl PanicIndexOutOfRange"
  by code_simp

subsection \<open>A trailing token after the numbering offset\<close>

lemma start_error_number_trailing_token:
  assumes seps: "seps \<noteq> []" "set seps \<subseteq> set trimCutset"
    and num: "num \<noteq> []" "set num \<inter> set wordDelims = {}"
    and d: "d \<in> set wordDelims"
    and line: "line = ''start-error-number'' @ seps @ num @ d # rest"
  shows "step st line = Inl (InvalidFormat line)"
proof -
  obtain s ss where s: "seps = s # ss" using seps(1) by (cases seps) auto
  obtain x xs where x: "num = x # xs" using num(1) by (cases num) auto
  from s seps(2) have sd: "s \<in> set wordDelims" by (simp add: trimCutset_wordDelims)
  from x num(2) have xt: "x \<notin> set trimCutset" using trimCutset_wordDelims by auto
  have kind: "classify line = KStartErrorNumber"
    by (simp add: line classify_def hasPrefix_def)
  have "set ''start-error-number'' \<inter> set wordDelims = {}" by (simp add: wordDelims_def)
  from consumeWord_append [OF this sd, of "ss @ num @ d # rest"]
  have w1: "consumeWord line = (''start-error-number'', seps @ num @ d # rest)"
    by (simp add: line s)
  have w2: "trimDelimiters (seps @ num @ d # rest) = num @ d # rest"
    using trimDelimiters_append [OF seps(2) xt, of "xs @ d # rest"] by (simp add: x)
  have w3: "consumeWord (num @ d # rest) = (num, d # rest)"
    by (rule consumeWord_append [OF num(2) d])
  have "directiveArg line = (num, d # rest)"
    by (simp add: directiveArg_def w1 w2 w3)
  with kind show ?thesis by (simp add: step_def)
qed

lemma scan_loop_stops:
  "scan_loop st0 pre = Inr st \<Longrightarrow> step st l = Inl e \<Longrightarrow> scan_loop st0 (pre @ l # post) = Inl e"
  by (simp add: scan_loop_append)

lemma scan_loop_fails_later:
  "scan_loop st0 pre = Inl e \<Longrightarrow> scan_loop st0 (pre @ post) = Inl e"
  by (simp add: scan_loop_append)

text \<open>
  Whatever comes before and after it, a \<^verbatim>\<open>start-error-number\<close> line with a trailing token
  keeps the current version from writing any output; when the lines before it are scanned
  without failure, the run ends in the error "invalid format" with that line.
\<close>

lemma run_trailing_token:
  assumes seps: "seps \<noteq> []" "set seps \<subseteq> set trimCutset"
    and num: "num \<noteq> []" "set num \<inter> set wordDelims = {}"
    and d: "d \<in> set wordDelims"
    and line: "line = ''start-error-number'' @ seps @ num @ d # rest"
    and input: "scanLines input = pre @ line # post"
  shows "\<exists>e. run pkg input prior = Inl e"
    and "scan_loop init_state pre = Inr st \<Longrightarrow> run pkg input prior = Inl (InvalidFormat line)"
proof -
  note bad = start_error_number_trailing_token [OF seps num d line]
  show "\<exists>e. run pkg input prior = Inl e"
  proof (cases "scan_loop init_state pre")
    case (Inl e)
    from scan_loop_fails_later [OF this, of "line # post"] show ?thesis
      by (simp add: run_def input)
  next
    case (Inr st')
    from scan_loop_stops [OF this bad] show ?thesis
      by (simp add: run_def input)
  qed
  assume "scan_loop init_state pre = Inr st"
  from scan_loop_stops [OF this bad] show "run pkg input prior = Inl (InvalidFormat line)"
    by (simp add: run_def input)
qed

text \<open>
  Claim C7. The line \<^verbatim>\<open>start-error-number 1000 extra\<close>. The current version returns the
  "invalid format" error with the line. The earlier version (\<^verbatim>\<open>part_000\<close>, where the body of
  \<^verbatim>\<open>if rest != ""\<close> is the comment \<^verbatim>\<open>// error\<close>) accepts the line, sets the offset to 1000 and
  goes on to write the output.
\<close>

theorem trailing_token_accepted_v0:
  "scan_loop_v0 init_state [''start-error-number 1000 extra'']
     = Inr (init_state\<lparr>errorCodeOffset := 1000, rCount := 0\<rparr>)
   \<and> scan_loop init_state [''start-error-number 1000 extra'']
     = Inl (InvalidFormat ''start-error-number 1000 extra'')"
  by code_simp

subsection \<open>The obsolete flag\<close>

lemma step_obsolete:
  assumes "step st l = Inr st'"
    and "\<forall>e \<in> set (errs st). obsolete e = hasPrefix (name e) ''OBSOLETE_''"
  shows "\<forall>e \<in> set (errs st'). obsolete e = hasPrefix (name e) ''OBSOLETE_''"
proof (cases "classify l")
  case KMessage
  with assms(1) obtain m where "appendMessage st m = Inr st'"
    by (auto simp: step_def Let_def split_def split: if_splits sum.splits)
  from appendMessage_keeps [OF this, of "\<lambda>e. obsolete e = hasPrefix (name e) ''OBSOLETE_''"]
  have "map (\<lambda>e. obsolete e = hasPrefix (name e) ''OBSOLETE_'') (errs st')
          = map (\<lambda>e. obsolete e = hasPrefix (name e) ''OBSOLETE_'') (errs st)" by simp
  then have "(\<forall>b \<in> set (map (\<lambda>e. obsolete e = hasPrefix (name e) ''OBSOLETE_'') (errs st')). b)
          = (\<forall>b \<in> set (map (\<lambda>e. obsolete e = hasPrefix (name e) ''OBSOLETE_'') (errs st)). b)"
    by simp
  with assms(2) show ?thesis by simp
next
  case KHeader
  with assms show ?thesis
    by (auto simp: step_def newRecord_def Let_def split_def)
qed (use assms in \<open>auto simp: step_def Let_def split_def split: if_splits option.splits\<close>)

text \<open>
  In the current version every record of the catalog has the obsolete flag set exactly
  when its name begins with \<^verbatim>\<open>OBSOLETE_\<close>.
\<close>

lemma catalog_obsolete_flag:
  assumes "scan_loop init_state ls = Inr st" "e \<in> set (errs st)"
  shows "obsolete e = hasPrefix (name e) ''OBSOLETE_''"
proof -
  have "scan_loop s0 ls = Inr st \<Longrightarrow>
          \<forall>e \<in> set (errs s0). obsolete e = hasPrefix (name e) ''OBSOLETE_'' \<Longrightarrow>
          \<forall>e \<in> set (errs st). obsolete e = hasPrefix (name e) ''OBSOLETE_''" for s0
  proof (induction ls arbitrary: s0)
    case Nil
    then show ?case by simp
  next
    case (Cons l ls)
    from Cons.prems(1) obtain s1 where s1: "step s0 l = Inr s1" and s2: "scan_loop s1 ls = Inr st"
      by (auto split: sum.splits)
    from Cons.IH [OF s2 step_obsolete [OF s1 Cons.prems(2)]] show ?case .
  qed
  from this [OF assms(1)] assms(2) show ?thesis by (simp add: init_state_def)
qed

text \<open>
  Claim C9. The header line \<^verbatim>\<open>OBSOLETE_WARN_X\<close>. Its name begins with \<^verbatim>\<open>OBSOLETE_\<close>; the
  earlier version (\<^verbatim>\<open>part_000\<close>) tests the prefix \<^verbatim>\<open>OBSOLETE_ER_\<close> and leaves the flag false,
  the current version tests \<^verbatim>\<open>OBSOLETE_\<close> and sets it.
\<close>

theorem obsolete_warn_not_flagged_v0:
  "scan_loop_v0 init_state [''OBSOLETE_WARN_X'']
     = Inr (init_state\<lparr>rCount := 1,
              errs := [\<lparr>name = ''OBSOLETE_WARN_X'', code = 1000, sqlState = [], odbcState = [],
                        messages = [], obsolete = False\<rparr>]\<rparr>)
   \<and> scan_loop init_state [''OBSOLETE_WARN_X'']
     = Inr (init_state\<lparr>rCount := 1,
              errs := [\<lparr>name = ''OBSOLETE_WARN_X'', code = 1000, sqlState = [], odbcState = [],
                        messages = [], obsolete = True\<rparr>]\<rparr>)"
  by code_simp

section \<open>Atoi reads back what Itoa prints\<close>

lemma digit_char:
  "0 \<le> d \<Longrightarrow> d < 10 \<Longrightarrow> (of_char (char_of (48 + d :: int)) :: int) = 48 + d"
  by (simp add: of_char_of)

lemma isDigit_digit_char: "0 \<le> d \<Longrightarrow> d < 10 \<Longrightarrow> isDigit (char_of (48 + d :: int))"
proof -
  assume a: "0 \<le> d" "d < 10"
  have "(of_char (char_of (48 + d :: int)) :: nat) = nat (48 + d)"
    using a by (metis digit_char nat_int of_char_of of_nat_of_char)
  moreover from a have "48 \<le> nat (48 + d) \<and> nat (48 + d) \<le> 57" by linarith
  ultimately show ?thesis by (simp only: isDigit_def)
qed

lemma parseUint_loop_append:
  "parseUint_loop (xs @ ys) a =
     (case parseUint_loop xs a of UOk m \<Rightarrow> parseUint_loop ys m | USyntax \<Rightarrow> USyntax | URange \<Rightarrow> URange)"
  by (induction xs arbitrary: a) (auto simp: Let_def)

lemma parseUint_loop_digits:
  "0 \<le> n \<Longrightarrow> n \<le> 2 ^ 63 \<Longrightarrow> parseUint_loop (digits n) 0 = UOk n"
proof (induction n rule: digits.induct)
  case (1 n)
  show ?case
  proof (cases "n < 10")
    case True
    with "1.prems" show ?thesis
      by (subst digits.simps) (simp add: isDigit_digit_char digit_char)
  next
    case False
    with "1.prems" have a: "0 \<le> n div 10" "n div 10 \<le> 2 ^ 63" by simp_all
    have m: "0 \<le> n mod 10" "n mod 10 < 10" by simp_all
    from "1.prems" have small: "n div 10 < 1844674407370955162" by simp
    from "1.prems" have fits: "\<not> n div 10 * 10 + n mod 10 > 18446744073709551615" by simp
    from "1.IH" [OF False a] have "parseUint_loop (digits (n div 10)) 0 = UOk (n div 10)" .
    with False small fits show ?thesis
      by (subst digits.simps)
         (simp add: parseUint_loop_append isDigit_digit_char [OF m] digit_char [OF m] Let_def)
  qed
qed

lemma digits_chars: "0 \<le> n \<Longrightarrow> c \<in> set (digits n) \<Longrightarrow> isDigit c"
proof (induction n rule: digits.induct)
  case (1 n)
  show ?case
  proof (cases "n < 10")
    case True
    then have "digits n = [char_of (48 + n)]" by (subst digits.simps) simp
    with "1.prems" True show ?thesis by (simp add: isDigit_digit_char)
  next
    case False
    have m: "0 \<le> n mod 10" "n mod 10 < 10" by simp_all
    from False have "digits n = digits (n div 10) @ [char_of (48 + n mod 10)]"
      by (subst digits.simps) simp
    with "1.prems" have "c \<in> set (digits (n div 10)) \<or> c = char_of (48 + n mod 10)"
      by auto
    moreover from "1.prems" have "0 \<le> n div 10" by simp
    ultimately show ?thesis
      using "1.IH" [OF False] isDigit_digit_char [OF m] by auto
  qed
qed

lemma digits_nonempty: "digits n \<noteq> []"
  by (subst digits.simps) simp

lemma atoi_digits: "0 \<le> n \<Longrightarrow> n < 2 ^ 63 \<Longrightarrow> atoi (digits n) = word_of_int n"
proof -
  assume a: "0 \<le> n" "n < 2 ^ 63"
  have "isDigit (hd (digits n))" using digits_chars [OF a(1)] digits_nonempty by simp
  then have "hd (digits n) \<noteq> CHR ''-''" "hd (digits n) \<noteq> CHR ''+''"
    by (auto simp: isDigit_def)
  with a parseUint_loop_digits [of n] digits_nonempty [of n] show ?thesis
    by (simp add: atoi_def Let_def)
qed

lemma atoi_minus_digits:
  "0 < n \<Longrightarrow> n \<le> 2 ^ 63 \<Longrightarrow> atoi (CHR ''-'' # digits n) = word_of_int (- n)"
  using parseUint_loop_digits [of n] digits_nonempty [of n]
  by (simp add: atoi_def Let_def)

lemma atoi_itoa: "atoi (itoa w) = w"
proof (cases "sint w < 0")
  case True
  have "- (2 ^ 63) \<le> sint w" using sint_ge [of w] by simp
  with True have "atoi (CHR ''-'' # digits (- sint w)) = word_of_int (- (- sint w))"
    by (intro atoi_minus_digits) simp_all
  with True show ?thesis by (simp add: itoa_def)
next
  case False
  have "sint w < 2 ^ 63" using sint_lt [of w] by simp
  with False have "atoi (digits (sint w)) = word_of_int (sint w)"
    by (intro atoi_digits) simp_all
  with False show ?thesis by (simp add: itoa_def)
qed

lemma itoa_chars: "c \<in> set (itoa w) \<Longrightarrow> isDigit c \<or> c = CHR ''-''"
  by (auto simp: itoa_def dest: digits_chars [rotated] split: if_splits)

lemma itoa_nonempty: "itoa w \<noteq> []"
  by (simp add: itoa_def digits_nonempty)

section \<open>Reading the previous constants.go\<close>

lemma constants_line_other: "\<not> hasPrefix l ''const '' \<Longrightarrow> constants_line c l = Inr c"
  by (simp add: constants_line_def)

lemma constants_line_const:
  "hasPrefix l ''const '' \<Longrightarrow> 4 \<le> length (splitSpace l) \<Longrightarrow>
     constants_line c l = Inr (recordConst c l)"
  by (simp add: constants_line_def recordConst_def Let_def)

lemma constants_loop_foldl:
  assumes "\<forall>l \<in> set ls. hasPrefix l ''const '' \<longrightarrow> 4 \<le> length (splitSpace l)"
  shows "constants_loop c ls
           = Inr (foldl recordConst c (filter (\<lambda>l. hasPrefix l ''const '') ls))"
  using assms
proof (induction ls arbitrary: c)
  case Nil
  show ?case by simp
next
  case (Cons l ls)
  show ?case
  proof (cases "hasPrefix l ''const ''")
    case True
    with Cons.prems have "4 \<le> length (splitSpace l)" by simp
    with True Cons show ?thesis by (simp add: constants_line_const)
  next
    case False
    with Cons show ?thesis by (simp add: constants_line_other)
  qed
qed

text \<open>
  Claim C5, amended. The reader skips exactly the lines that do not begin with
  \<^verbatim>\<open>const\<close> and a blank: they raise no error and leave the maps as they are. A line that
  begins so is never skipped: it is split at blanks, and when it has at least four fields
  its second field is recorded under the value of its fourth (0 when that is no integer).
  On a file all of whose \<^verbatim>\<open>const\<close> lines have four fields the reader does not fail.
\<close>

theorem constants_loop_reads_const_lines:
  assumes "\<forall>l \<in> set ls. hasPrefix l ''const '' \<longrightarrow> 4 \<le> length (splitSpace l)"
  shows "constants_loop c ls
           = Inr (foldl recordConst c (filter (\<lambda>l. hasPrefix l ''const '') ls))"
  using assms by (rule constants_loop_foldl)

theorem constants_loop_reads_const_lines_witness:
  "\<exists>cs. constants_loop emptyConstants
           [''// Deprecated: should not be used'', ''const ER_A = 1000'', ''package p'',
            ''const ER_B = x'']
          = Inr cs
        \<and> byName cs = [''ER_A'' \<mapsto> 1000, ''ER_B'' \<mapsto> 0]
        \<and> namesOf cs 1000 = [''ER_A''] \<and> namesOf cs 0 = [''ER_B'']"
proof -
  have h: "\<forall>l \<in> set [''// Deprecated: should not be used'', ''const ER_A = 1000'', ''package p'',
              ''const ER_B = x'']. hasPrefix l ''const '' \<longrightarrow> 4 \<le> length (splitSpace l)"
    by (simp add: hasPrefix_def)
  have a: "atoi ''1000'' = 1000" "atoi ''x'' = 0" by code_simp+
  show ?thesis
    unfolding constants_loop_reads_const_lines [OF h]
    by (simp add: hasPrefix_def recordConst_def constants_add_def emptyConstants_def namesOf_def a)
qed

text \<open>
  Claim C5 as stated fails on lines that begin with the keyword and are no declaration:
  \<^verbatim>\<open>const X = abc\<close> is not skipped but recorded as \<open>X\<close> with code 0, and \<^verbatim>\<open>const X\<close> (two
  fields) makes the read of \<^verbatim>\<open>tokens[3]\<close> panic.
\<close>

theorem malformed_const_line_not_skipped:
  "(case parseConstantsGo ''const X = abc'' of Inl e \<Rightarrow> None | Inr cs \<Rightarrow> byName cs ''X'') = Some 0
   \<and> parseConstantsGo ''const X'' = Inl PanicIndexOutOfRange"
proof -
  have "scanLines ''const X'' = [''const X'']" by code_simp
  then have short: "parseConstantsGo ''const X'' = Inl PanicIndexOutOfRange"
    by (simp add: parseConstantsGo_def constants_line_def hasPrefix_def Let_def)
  have "scanLines ''const X = abc'' = [''const X = abc'']" by code_simp
  moreover have "atoi ''abc'' = 0" by code_simp
  ultimately have "(case parseConstantsGo ''const X = abc'' of Inl e \<Rightarrow> None
                      | Inr cs \<Rightarrow> byName cs ''X'') = Some 0"
    by (simp add: parseConstantsGo_def constants_line_def hasPrefix_def Let_def
          constants_add_def emptyConstants_def)
  with short show ?thesis by simp
qed

section \<open>Reading back what the generator wrote\<close>

subsection \<open>scanLines on printed lines\<close>

lemma fits_empty: "fits []"
  by (simp add: fits_def maxScanTokenSize_def)

lemma scanLines_from_line:
  assumes "LF \<notin> set l" "fits cur"
  shows "scanLines_from cur (l @ LF # rest)
           = (if fits (cur @ l) then dropCR (cur @ l) # scanLines_from [] rest else [])"
  using assms
proof (induction l arbitrary: cur)
  case Nil
  then show ?case by simp
next
  case (Cons c l)
  show ?case
  proof (cases "maxScanTokenSize \<le> int (length cur) + 1")
    case True
    then have "\<not> fits (cur @ c # l)" by (simp add: fits_def)
    with True Cons.prems show ?thesis by auto
  next
    case False
    then have "fits (cur @ [c])" by (simp add: fits_def)
    from Cons.prems have "c \<noteq> LF" "LF \<notin> set l" by auto
    with Cons.IH [OF this(2) \<open>fits (cur @ [c])\<close>] False show ?thesis by simp
  qed
qed

text \<open>
  Of lines printed one after the other the scanner gives back those before the first that
  does not fit, each without its trailing carriage return.
\<close>

lemma scanLines_from_lines:
  assumes "\<forall>l \<in> set ls. LF \<notin> set l"
  shows "scanLines_from [] (concat (map (\<lambda>l. l @ [LF]) ls)) = map dropCR (takeWhile fits ls)"
  using assms
proof (induction ls)
  case Nil
  show ?case by simp
next
  case (Cons l ls)
  from Cons.prems have "LF \<notin> set l" by simp
  from scanLines_from_line [OF this fits_empty, of "concat (map (\<lambda>l. l @ [LF]) ls)"]
  show ?case using Cons by simp
qed

lemma dropCR_cases: "dropCR l = l \<or> dropCR l = butlast l"
  by (simp add: dropCR_def)

lemma not_const_by_head:
  assumes "l \<noteq> []" "hd l \<noteq> CHR ''c''"
  shows "\<not> hasPrefix (dropCR l) ''const ''"
proof -
  have "dropCR l = [] \<or> hd (dropCR l) = hd l"
    using dropCR_cases [of l] assms(1)
    by (cases l rule: rev_cases) (auto simp: hd_append)
  with assms(2) show ?thesis
    by (cases "dropCR l") (auto simp: hasPrefix_def)
qed

lemma dropCR_id: "l \<noteq> [] \<Longrightarrow> last l \<noteq> CR \<Longrightarrow> dropCR l = l"
  by (simp add: dropCR_def)

lemma licenseLines_no_LF:
  "LF \<notin> set licenseLine1" "LF \<notin> set licenseLine2" "LF \<notin> set licenseLine3"
  "LF \<notin> set licenseLine4" "LF \<notin> set licenseLine5" "LF \<notin> set licenseLine6"
  "LF \<notin> set licenseLine7"
  by (simp_all add: licenseLine1_def licenseLine2_def licenseLine3_def licenseLine4_def
        licenseLine5_def licenseLine6_def licenseLine7_def)

lemma licenseLines_head:
  "licenseLine1 \<noteq> [] \<and> hd licenseLine1 \<noteq> CHR ''c''"
  "licenseLine2 \<noteq> [] \<and> hd licenseLine2 \<noteq> CHR ''c''"
  "licenseLine3 \<noteq> [] \<and> hd licenseLine3 \<noteq> CHR ''c''"
  "licenseLine4 \<noteq> [] \<and> hd licenseLine4 \<noteq> CHR ''c''"
  "licenseLine5 \<noteq> [] \<and> hd licenseLine5 \<noteq> CHR ''c''"
  "licenseLine6 \<noteq> [] \<and> hd licenseLine6 \<noteq> CHR ''c''"
  "licenseLine7 \<noteq> [] \<and> hd licenseLine7 \<noteq> CHR ''c''"
  by (simp_all add: licenseLine1_def licenseLine2_def licenseLine3_def licenseLine4_def
        licenseLine5_def licenseLine6_def licenseLine7_def)

lemma licenseLines_fit:
  "fits licenseLine1" "fits licenseLine2" "fits licenseLine3" "fits licenseLine4"
  "fits licenseLine5" "fits licenseLine6" "fits licenseLine7"
  by (simp_all add: fits_def maxScanTokenSize_def licenseLine1_def licenseLine2_def
        licenseLine3_def licenseLine4_def licenseLine5_def licenseLine6_def licenseLine7_def)

lemma fileHeader_lines: "fileHeader pkg = concat (map (\<lambda>l. l @ [LF]) (headerLines pkg))"
  by (simp add: fileHeader_def fprintln_def licenseText_def headerLines_def)

lemma headerLines_no_LF:
  assumes "LF \<notin> set pkg" "l \<in> set (headerLines pkg)"
  shows "LF \<notin> set l"
proof -
  have "LF \<notin> set generatedMarker" by (simp add: generatedMarker_def)
  moreover from assms(1) have "LF \<notin> set (''package '' @ pkg)" by simp
  ultimately show ?thesis
    using assms(2) licenseLines_no_LF unfolding headerLines_def by auto
qed

lemma headerLines_fit:
  assumes "fits (''package '' @ pkg)"
  shows "\<forall>l \<in> set (headerLines pkg). fits l"
proof -
  have "fits generatedMarker" by (simp add: fits_def maxScanTokenSize_def generatedMarker_def)
  with assms licenseLines_fit show ?thesis
    unfolding headerLines_def by simp
qed

lemma headerLines_skipped:
  assumes "l \<in> set (headerLines pkg)"
  shows "\<not> hasPrefix (dropCR l) ''const ''"
proof -
  have "\<not> hasPrefix (dropCR generatedMarker) ''const ''"
    by (rule not_const_by_head) (simp_all add: generatedMarker_def)
  moreover have "\<not> hasPrefix (dropCR (''package '' @ pkg)) ''const ''"
    by (rule not_const_by_head) simp_all
  moreover have "\<not> hasPrefix (dropCR licenseLine1) ''const ''"
    using licenseLines_head(1) by (intro not_const_by_head) simp_all
  moreover have "\<not> hasPrefix (dropCR licenseLine2) ''const ''"
    using licenseLines_head(2) by (intro not_const_by_head) simp_all
  moreover have "\<not> hasPrefix (dropCR licenseLine3) ''const ''"
    using licenseLines_head(3) by (intro not_const_by_head) simp_all
  moreover have "\<not> hasPrefix (dropCR licenseLine4) ''const ''"
    using licenseLines_head(4) by (intro not_const_by_head) simp_all
  moreover have "\<not> hasPrefix (dropCR licenseLine5) ''const ''"
    using licenseLines_head(5) by (intro not_const_by_head) simp_all
  moreover have "\<not> hasPrefix (dropCR licenseLine6) ''const ''"
    using licenseLines_head(6) by (intro not_const_by_head) simp_all
  moreover have "\<not> hasPrefix (dropCR licenseLine7) ''const ''"
    using licenseLines_head(7) by (intro not_const_by_head) simp_all
  ultimately show ?thesis
    using assms unfolding headerLines_def by auto
qed

subsection \<open>The generator in closed form\<close>

lemma namesOf_add:
  "namesOf (constants_add c nm k) cd = (if k = cd then namesOf c cd @ [nm] else namesOf c cd)"
  by (simp add: constants_add_def namesOf_def)

lemma namesOf_foldl_recordConst:
  "namesOf (foldl recordConst c ls) cd
     = namesOf c cd @ map (\<lambda>l. splitSpace l ! 1) (filter (\<lambda>l. atoi (splitSpace l ! 3) = cd) ls)"
  by (induction ls arbitrary: c) (simp_all add: recordConst_def namesOf_add)

lemma namesOf_empty: "namesOf emptyConstants cd = []"
  by (simp add: namesOf_def emptyConstants_def)

lemma namesOf_parseConstantsGo:
  assumes "parseConstantsGo prior = Inr cs"
  shows "namesOf cs cd = priorNames prior cd"
proof -
  have *: "constants_loop c ls = Inr c' \<Longrightarrow>
             c' = foldl recordConst c (filter (\<lambda>l. hasPrefix l ''const '') ls)" for c c' ls
  proof (induction ls arbitrary: c)
    case Nil
    then show ?case by simp
  next
    case (Cons l ls)
    then show ?case
      by (cases "hasPrefix l ''const ''")
         (auto simp: constants_line_def recordConst_def Let_def split: sum.splits if_splits)
  qed
  from assms have "cs = foldl recordConst emptyConstants
                          (filter (\<lambda>l. hasPrefix l ''const '') (scanLines prior))"
    unfolding parseConstantsGo_def by (rule *)
  then show ?thesis
    by (simp add: namesOf_foldl_recordConst namesOf_empty priorNames_def filter_filter conj_commute)
qed

lemma writeDeprecated_deprecates_loop:
  "writeDeprecated (deprecates_loop ns nm cd)
     = concat (map (\<lambda>n. deprecatedComment @ constDecl n cd) (filter (\<lambda>n. n \<noteq> nm) ns))"
  by (induction ns) simp_all

lemma writeErrs_recordLines:
  "writeErrs cs es = concat (map (\<lambda>e. recordLines (namesOf cs (code e)) e) es)"
  by (induction es) (simp_all add: recordLines_def deprecates_def writeDeprecated_deprecates_loop)

lemma run_with_prior:
  assumes "scan_loop init_state (scanLines input) = Inr st"
    and "parseConstantsGo prior = Inr cs"
  shows "run pkg input (Some prior)
           = Inr (fileHeader pkg
                  @ concat (map (\<lambda>e. recordLines (priorNames prior (code e)) e) (errs st)))"
  using assms
  by (simp add: run_def writeErrs_recordLines namesOf_parseConstantsGo)

subsection \<open>Names of records hold no delimiter\<close>

lemma consumeWord_word: "set (fst (consumeWord s)) \<inter> set wordDelims = {}"
  using set_takeWhileD [of _ "\<lambda>c. c \<notin> set wordDelims" s]
  by (auto simp: consumeWord_takeWhile)

lemma step_names:
  assumes "step st l = Inr st'"
    and "\<forall>n \<in> set (map name (errs st)). set n \<inter> set wordDelims = {}"
  shows "\<forall>n \<in> set (map name (errs st')). set n \<inter> set wordDelims = {}"
proof (cases "classify l")
  case KMessage
  with assms(1) obtain m where "appendMessage st m = Inr st'"
    by (auto simp: step_def Let_def split_def split: if_splits sum.splits)
  from appendMessage_keeps [OF this, of name] assms(2) show ?thesis by simp
next
  case KHeader
  with assms(1) have "map name (errs st') = map name (errs st) @ [fst (consumeWord l)]"
    by (auto simp: step_def newRecord_def Let_def split_def)
  with assms(2) consumeWord_word [of l] show ?thesis by auto
qed (use assms in \<open>auto simp: step_def Let_def split_def split: if_splits option.splits\<close>)

lemma scan_loop_names:
  "scan_loop st ls = Inr st' \<Longrightarrow>
     \<forall>n \<in> set (map name (errs st)). set n \<inter> set wordDelims = {} \<Longrightarrow>
     \<forall>n \<in> set (map name (errs st')). set n \<inter> set wordDelims = {}"
proof (induction ls arbitrary: st)
  case Nil
  then show ?case by simp
next
  case (Cons l ls)
  from Cons.prems(1) obtain st1 where s1: "step st l = Inr st1" and s2: "scan_loop st1 ls = Inr st'"
    by (auto split: sum.splits)
  from Cons.IH [OF s2 step_names [OF s1 Cons.prems(2)]] show ?case .
qed

lemma catalog_names:
  assumes "scan_loop init_state ls = Inr st" "e \<in> set (errs st)"
  shows "CHR '' '' \<notin> set (name e) \<and> LF \<notin> set (name e)"
proof -
  from scan_loop_names [OF assms(1)] have "\<forall>n \<in> set (map name (errs st)). set n \<inter> set wordDelims = {}"
    by (simp add: init_state_def)
  with assms(2) have "set (name e) \<inter> set wordDelims = {}" by simp
  then show ?thesis by (auto simp: wordDelims_def)
qed

subsection \<open>Declaration lines\<close>

lemma splitSpace_field:
  "CHR '' '' \<notin> set a \<Longrightarrow> splitSpace (a @ CHR '' '' # rest) = a # splitSpace rest"
  by (induction a) (auto split: list.splits)

lemma splitSpace_last: "CHR '' '' \<notin> set a \<Longrightarrow> splitSpace a = [a]"
  by (induction a) (auto split: list.splits)

lemma itoa_no_blank: "CHR '' '' \<notin> set (itoa w)" "LF \<notin> set (itoa w)" "CR \<notin> set (itoa w)"
proof -
  have "\<not> (isDigit c \<or> c = CHR ''-'')" if "c = CHR '' '' \<or> c = LF \<or> c = CR" for c
    using that by (auto simp: isDigit_def)
  then show "CHR '' '' \<notin> set (itoa w)" "LF \<notin> set (itoa w)" "CR \<notin> set (itoa w)"
    using itoa_chars [of _ w] by blast+
qed

lemma splitSpace_declLine:
  assumes "CHR '' '' \<notin> set nm"
  shows "splitSpace (declLine nm cd) = [''const'', nm, ''='', itoa cd]"
proof -
  have "declLine nm cd = ''const'' @ CHR '' '' # (nm @ CHR '' '' # (''='' @ CHR '' '' # itoa cd))"
    by (simp add: declLine_def)
  then show ?thesis
    using assms itoa_no_blank(1) [of cd]
    by (simp only: splitSpace_field splitSpace_last) (simp add: splitSpace_field splitSpace_last)
qed

lemma constants_line_declLine:
  assumes "CHR '' '' \<notin> set nm"
  shows "constants_line c (declLine nm cd) = Inr (constants_add c nm cd)"
proof -
  have "hasPrefix (declLine nm cd) ''const ''" by (simp add: declLine_def hasPrefix_def)
  then show ?thesis
    by (simp add: constants_line_def splitSpace_declLine [OF assms] atoi_itoa)
qed

lemma constDecl_declLine: "constDecl nm cd = declLine nm cd @ [LF]"
  by (simp add: constDecl_def declLine_def fprintln_def)

lemma dropCR_declLine: "dropCR (declLine nm cd) = declLine nm cd"
proof -
  have "last (declLine nm cd) = last (itoa cd)"
    using itoa_nonempty [of cd] by (simp add: declLine_def)
  moreover have "last (itoa cd) \<in> set (itoa cd)" using itoa_nonempty by simp
  ultimately have "last (declLine nm cd) \<noteq> CR" using itoa_no_blank(3) [of cd] by metis
  then show ?thesis by (simp add: dropCR_def)
qed

lemma declLine_no_LF: "LF \<notin> set nm \<Longrightarrow> LF \<notin> set (declLine nm cd)"
  using itoa_no_blank(2) [of cd] by (simp add: declLine_def)

lemma constants_loop_skip:
  "\<forall>l \<in> set hs. \<not> hasPrefix l ''const '' \<Longrightarrow> constants_loop c (hs @ ls) = constants_loop c ls"
  by (induction hs) (simp_all add: constants_line_def)

lemma writeErrs_empty:
  "writeErrs emptyConstants es = concat (map (\<lambda>e. constDecl (name e) (code e)) es)"
  by (induction es) (simp_all add: deprecates_def namesOf_empty)

text \<open>The file written without a previous one, as a sequence of printed lines.\<close>

lemma first_output_lines:
  "fileHeader pkg @ writeErrs emptyConstants es
     = concat (map (\<lambda>l. l @ [LF])
         (headerLines pkg @ map (\<lambda>e. declLine (name e) (code e)) es))"
proof -
  have "writeErrs emptyConstants es
          = concat (map (\<lambda>l. l @ [LF]) (map (\<lambda>e. declLine (name e) (code e)) es))"
    unfolding writeErrs_empty by (simp add: constDecl_declLine comp_def)
  then show ?thesis by (simp only: fileHeader_lines map_append concat_append)
qed

lemma scanLines_first_output:
  assumes "LF \<notin> set pkg" "\<forall>e \<in> set es. LF \<notin> set (name e)"
  shows "scanLines (fileHeader pkg @ writeErrs emptyConstants es)
           = map dropCR (takeWhile fits
               (headerLines pkg @ map (\<lambda>e. declLine (name e) (code e)) es))"
proof -
  have "\<forall>l \<in> set (headerLines pkg @ map (\<lambda>e. declLine (name e) (code e)) es). LF \<notin> set l"
    using headerLines_no_LF [OF assms(1)] declLine_no_LF assms(2) by auto
  from scanLines_from_lines [OF this] show ?thesis
    by (simp only: scanLines_def first_output_lines)
qed

lemma constants_loop_decls:
  "\<forall>e \<in> set es. CHR '' '' \<notin> set (name e) \<Longrightarrow>
     constants_loop c (map (\<lambda>e. declLine (name e) (code e)) es)
       = Inr (foldl (\<lambda>c e. constants_add c (name e) (code e)) c es)"
  by (induction es arbitrary: c) (simp_all add: constants_line_declLine)

lemma namesOf_foldl_add:
  "namesOf (foldl (\<lambda>c e. constants_add c (name e) (code e)) c es) cd
     = namesOf c cd @ map name (filter (\<lambda>e. code e = cd) es)"
  by (induction es arbitrary: c) (simp_all add: namesOf_add)

text \<open>
  Reading back the file written without a previous one gives, under each code, the names
  of the records read: those whose declarations come before the first line that does
  not fit the scanner's buffer, which is every record when all lines fit.
\<close>

lemma parse_first_output:
  assumes "LF \<notin> set pkg"
    and "\<forall>e \<in> set es. CHR '' '' \<notin> set (name e) \<and> LF \<notin> set (name e)"
  shows "\<exists>cs es'. parseConstantsGo (fileHeader pkg @ writeErrs emptyConstants es) = Inr cs
           \<and> (\<forall>cd. namesOf cs cd = map name (filter (\<lambda>e. code e = cd) es'))
           \<and> set es' \<subseteq> set es
           \<and> (fits (''package '' @ pkg) \<and> (\<forall>e \<in> set es. fits (declLine (name e) (code e)))
                \<longrightarrow> es' = es)"
proof -
  define dl where "dl = (\<lambda>e :: mysqlError. declLine (name e) (code e))"
  define es' where
    "es' = (if \<forall>l \<in> set (headerLines pkg). fits l then takeWhile (fits \<circ> dl) es else [])"
  from assms(2) have a: "\<forall>e \<in> set es. LF \<notin> set (name e)" by auto
  have sub: "set es' \<subseteq> set es"
    using set_takeWhileD [of _ "fits \<circ> dl" es] by (auto simp: es'_def)
  with assms(2) have b: "\<forall>e \<in> set es'. CHR '' '' \<notin> set (name e)" by auto
  have skip: "\<forall>l \<in> set (map dropCR hs). \<not> hasPrefix l ''const ''"
    if "set hs \<subseteq> set (headerLines pkg)" for hs
    using that headerLines_skipped [of _ pkg] by auto
  have lines: "scanLines (fileHeader pkg @ writeErrs emptyConstants es)
          = map dropCR (takeWhile fits (headerLines pkg @ map dl es))"
    unfolding dl_def by (rule scanLines_first_output [OF assms(1) a])
  have "\<exists>hs. set hs \<subseteq> set (headerLines pkg)
          \<and> map dropCR (takeWhile fits (headerLines pkg @ map dl es))
              = map dropCR hs @ map dl es'"
  proof (cases "\<forall>l \<in> set (headerLines pkg). fits l")
    case True
    then have "takeWhile fits (headerLines pkg @ map dl es)
                 = headerLines pkg @ map dl (takeWhile (fits \<circ> dl) es)"
      by (simp add: takeWhile_append2 takeWhile_map)
    moreover have "map dropCR (map dl xs) = map dl xs" for xs
      by (simp add: dl_def dropCR_declLine)
    moreover from True have "es' = takeWhile (fits \<circ> dl) es" by (simp add: es'_def)
    ultimately have "map dropCR (takeWhile fits (headerLines pkg @ map dl es))
                 = map dropCR (headerLines pkg) @ map dl es'"
      by (simp only: map_append)
    then show ?thesis by blast
  next
    case False
    then obtain l where "l \<in> set (headerLines pkg)" "\<not> fits l" by blast
    then have "takeWhile fits (headerLines pkg @ map dl es) = takeWhile fits (headerLines pkg)"
      by (rule takeWhile_append1)
    moreover have "set (takeWhile fits (headerLines pkg)) \<subseteq> set (headerLines pkg)"
      using set_takeWhileD [of _ fits "headerLines pkg"] by blast
    moreover from False have "es' = []" unfolding es'_def by (simp only: if_False)
    ultimately show ?thesis
      by (intro exI [of _ "takeWhile fits (headerLines pkg)"]) simp
  qed
  then obtain hs where hs: "set hs \<subseteq> set (headerLines pkg)"
    and eq: "map dropCR (takeWhile fits (headerLines pkg @ map dl es))
               = map dropCR hs @ map dl es'" by blast
  have "constants_loop emptyConstants (map dropCR hs @ map dl es')
          = Inr (foldl (\<lambda>c e. constants_add c (name e) (code e)) emptyConstants es')"
    unfolding dl_def
    by (simp only: constants_loop_skip [OF skip [OF hs]] constants_loop_decls [OF b])
  then have p: "parseConstantsGo (fileHeader pkg @ writeErrs emptyConstants es)
          = Inr (foldl (\<lambda>c e. constants_add c (name e) (code e)) emptyConstants es')"
    by (simp only: parseConstantsGo_def lines eq)
  have n: "\<forall>cd. namesOf (foldl (\<lambda>c e. constants_add c (name e) (code e)) emptyConstants es') cd
             = map name (filter (\<lambda>e. code e = cd) es')"
    by (simp add: namesOf_foldl_add namesOf_empty)
  have all: "fits (''package '' @ pkg) \<and> (\<forall>e \<in> set es. fits (declLine (name e) (code e)))
               \<longrightarrow> es' = es"
  proof
    assume f: "fits (''package '' @ pkg) \<and> (\<forall>e \<in> set es. fits (declLine (name e) (code e)))"
    then have "takeWhile (fits \<circ> dl) es = es"
      by (simp add: dl_def takeWhile_eq_all_conv)
    moreover from f have "\<forall>l \<in> set (headerLines pkg). fits l"
      by (intro headerLines_fit) simp
    ultimately show "es' = es" by (simp add: es'_def)
  qed
  from p n sub all show ?thesis by blast
qed

lemma parse_first_output_fits:
  assumes "LF \<notin> set pkg"
    and "\<forall>e \<in> set es. CHR '' '' \<notin> set (name e) \<and> LF \<notin> set (name e)"
    and "fits (''package '' @ pkg)"
    and "\<forall>e \<in> set es. fits (declLine (name e) (code e))"
  shows "\<exists>cs. parseConstantsGo (fileHeader pkg @ writeErrs emptyConstants es) = Inr cs
           \<and> (\<forall>cd. namesOf cs cd = map name (filter (\<lambda>e. code e = cd) es))"
  using parse_first_output [OF assms(1,2)] assms(3,4) by blast

lemma recordLines_no_alias:
  "\<forall>n \<in> set ns. n = name e \<Longrightarrow> recordLines ns e = constDecl (name e) (code e)"
proof -
  assume "\<forall>n \<in> set ns. n = name e"
  then have "filter (\<lambda>n. n \<noteq> name e) ns = []" by (simp add: filter_empty_conv)
  then show ?thesis by (simp add: recordLines_def)
qed

section \<open>Deprecated aliases\<close>

text \<open>
  Claim C3, amended. Let the scan of the input succeed with the records \<open>errs st\<close>, and
  let the previous file be read without a panic. Then the output is the file header
  followed, for each record in order, by \<open>recordLines\<close>: for every \<^verbatim>\<open>const\<close> line of the
  previous file that declares a name for the record's code, the name being another than
  the record's, and in the order of those lines, the comment
  \<^verbatim>\<open>// Deprecated: should not be used\<close> and the declaration of that name with the record's
  code; directly after them the record's own declaration, with no comment. The
  deprecated declarations are one for each declaring line, not one for each name: the
  list \<^verbatim>\<open>byCode[code]\<close> gets an entry from every line (\<^verbatim>\<open>add\<close> appends without looking
  for the name), and \<^verbatim>\<open>deprecates\<close> walks all its entries. The witness is the
  specification's example: the previous file declares \<^verbatim>\<open>ER_OLD = 1051\<close> and the input
  numbers \<^verbatim>\<open>ER_NEW\<close> 1051.
\<close>

theorem deprecated_aliases_before_record:
  assumes "scan_loop init_state (scanLines input) = Inr st"
    and "parseConstantsGo prior = Inr cs"
  shows "run pkg input (Some prior)
           = Inr (fileHeader pkg
                  @ concat (map (\<lambda>e. recordLines (priorNames prior (code e)) e) (errs st)))"
  using assms by (rule run_with_prior)

theorem deprecated_aliases_before_record_witness:
  "run ''mysqlerr'' (''start-error-number 1051'' @ [LF] @ ''ER_NEW'' @ [LF])
       (Some (fileHeader ''mysqlerr'' @ ''const ER_OLD = 1051'' @ [LF]))
     = Inr (fileHeader ''mysqlerr''
            @ ''// Deprecated: should not be used'' @ [LF]
            @ ''const ER_OLD = 1051'' @ [LF]
            @ ''const ER_NEW = 1051'' @ [LF])"
proof -
  define inp where "inp = ''start-error-number 1051'' @ [LF] @ ''ER_NEW'' @ [LF]"
  define old where "old = [\<lparr>name = ''ER_OLD'', code = 1051, sqlState = [], odbcState = [],
                             messages = [], obsolete = False\<rparr>]"
  define prior where "prior = fileHeader ''mysqlerr'' @ writeErrs emptyConstants old"
  have sc: "scan_loop init_state (scanLines inp)
      = Inr (init_state\<lparr>errorCodeOffset := 1051, rCount := 1,
               errs := [\<lparr>name = ''ER_NEW'', code = 1051, sqlState = [], odbcState = [],
                          messages = [], obsolete = False\<rparr>]\<rparr>)"
    unfolding inp_def by code_simp
  have it: "itoa 1051 = ''1051''" by code_simp
  have p: "prior = fileHeader ''mysqlerr'' @ ''const ER_OLD = 1051'' @ [LF]"
    by (simp add: prior_def old_def deprecates_def namesOf_empty constDecl_def fprintln_def it)
  have "\<forall>e \<in> set old. CHR '' '' \<notin> set (name e) \<and> LF \<notin> set (name e)"
    by (simp add: old_def)
  moreover have "fits (''package '' @ ''mysqlerr'')"
    by (simp add: fits_def maxScanTokenSize_def)
  moreover have "\<forall>e \<in> set old. fits (declLine (name e) (code e))"
    by (simp add: old_def declLine_def it fits_def maxScanTokenSize_def)
  ultimately obtain cs where
      cs: "parseConstantsGo prior = Inr cs"
    and nm: "\<And>cd. namesOf cs cd = map name (filter (\<lambda>e. code e = cd) old)"
    unfolding prior_def using parse_first_output_fits [of "''mysqlerr''" old] by auto
  have pn: "priorNames prior 1051 = [''ER_OLD'']"
    using namesOf_parseConstantsGo [OF cs, of 1051] by (simp add: nm old_def)
  from deprecated_aliases_before_record [OF sc cs, of "''mysqlerr''"]
  have "run ''mysqlerr'' inp (Some prior)
      = Inr (fileHeader ''mysqlerr''
             @ recordLines [''ER_OLD'']
                 \<lparr>name = ''ER_NEW'', code = 1051, sqlState = [], odbcState = [],
                   messages = [], obsolete = False\<rparr>)"
    by (simp add: pn)
  then show ?thesis
    by (simp add: p inp_def recordLines_def deprecatedComment_def constDecl_def
          fprintln_def it)
qed

text \<open>
  Claim C3 as stated (one deprecated declaration for each name) fails on a previous file
  that declares a name twice for a code. The generator writes such a file itself, for
  the input that numbers \<^verbatim>\<open>ER_OLD\<close> 1051 twice. With that file as the previous one and an
  input that numbers \<^verbatim>\<open>ER_NEW\<close> 1051, the deprecated declaration of the one name
  \<^verbatim>\<open>ER_OLD\<close> is written twice.
\<close>

theorem repeated_name_written_twice:
  "run ''mysqlerr'' (''start-error-number 1051'' @ [LF] @ ''ER_OLD'' @ [LF]
                     @ ''start-error-number 1051'' @ [LF] @ ''ER_OLD'' @ [LF]) None
     = Inr (fileHeader ''mysqlerr'' @ ''const ER_OLD = 1051'' @ [LF] @ ''const ER_OLD = 1051'' @ [LF])
   \<and> run ''mysqlerr'' (''start-error-number 1051'' @ [LF] @ ''ER_NEW'' @ [LF])
        (Some (fileHeader ''mysqlerr'' @ ''const ER_OLD = 1051'' @ [LF] @ ''const ER_OLD = 1051'' @ [LF]))
     = Inr (fileHeader ''mysqlerr''
            @ ''// Deprecated: should not be used'' @ [LF] @ ''const ER_OLD = 1051'' @ [LF]
            @ ''// Deprecated: should not be used'' @ [LF] @ ''const ER_OLD = 1051'' @ [LF]
            @ ''const ER_NEW = 1051'' @ [LF])"
proof -
  define inp0 where "inp0 = ''start-error-number 1051'' @ [LF] @ ''ER_OLD'' @ [LF]
                     @ ''start-error-number 1051'' @ [LF] @ ''ER_OLD'' @ [LF]"
  define inp where "inp = ''start-error-number 1051'' @ [LF] @ ''ER_NEW'' @ [LF]"
  define old where "old = [\<lparr>name = ''ER_OLD'', code = 1051, sqlState = [], odbcState = [],
                             messages = [], obsolete = False\<rparr>,
                           \<lparr>name = ''ER_OLD'', code = 1051, sqlState = [], odbcState = [],
                             messages = [], obsolete = False\<rparr>]"
  define new where "new = [\<lparr>name = ''ER_NEW'', code = 1051, sqlState = [], odbcState = [],
                             messages = [], obsolete = False\<rparr>]"
  have sc0: "scan_loop init_state (scanLines inp0)
      = Inr (init_state\<lparr>errorCodeOffset := 1051, rCount := 1, errs := old\<rparr>)"
    unfolding inp0_def old_def by code_simp
  have sc: "scan_loop init_state (scanLines inp)
      = Inr (init_state\<lparr>errorCodeOffset := 1051, rCount := 1, errs := new\<rparr>)"
    unfolding inp_def new_def by code_simp
  have it: "itoa 1051 = ''1051''" by code_simp
  have w: "fileHeader ''mysqlerr'' @ writeErrs emptyConstants old
             = fileHeader ''mysqlerr'' @ ''const ER_OLD = 1051'' @ [LF] @ ''const ER_OLD = 1051'' @ [LF]"
    by (simp add: old_def deprecates_def namesOf_empty constDecl_def fprintln_def it)
  have first: "run ''mysqlerr'' inp0 None
      = Inr (fileHeader ''mysqlerr'' @ ''const ER_OLD = 1051'' @ [LF] @ ''const ER_OLD = 1051'' @ [LF])"
    using w by (simp add: run_def sc0)
  have "\<forall>e \<in> set old. CHR '' '' \<notin> set (name e) \<and> LF \<notin> set (name e)"
    by (simp add: old_def)
  moreover have "fits (''package '' @ ''mysqlerr'')"
    by (simp add: fits_def maxScanTokenSize_def)
  moreover have "\<forall>e \<in> set old. fits (declLine (name e) (code e))"
    by (simp add: old_def declLine_def it fits_def maxScanTokenSize_def)
  ultimately obtain cs where
      cs: "parseConstantsGo (fileHeader ''mysqlerr'' @ writeErrs emptyConstants old) = Inr cs"
    and nm: "\<And>cd. namesOf cs cd = map name (filter (\<lambda>e. code e = cd) old)"
    using parse_first_output_fits [of "''mysqlerr''" old] by auto
  have "writeErrs cs new =
          ''// Deprecated: should not be used'' @ [LF] @ ''const ER_OLD = 1051'' @ [LF]
            @ ''// Deprecated: should not be used'' @ [LF] @ ''const ER_OLD = 1051'' @ [LF]
            @ ''const ER_NEW = 1051'' @ [LF]"
    unfolding writeErrs_recordLines [of cs]
    by (simp add: nm old_def new_def recordLines_def deprecatedComment_def constDecl_def
          fprintln_def it)
  with cs w have second: "run ''mysqlerr'' inp
        (Some (fileHeader ''mysqlerr'' @ ''const ER_OLD = 1051'' @ [LF] @ ''const ER_OLD = 1051'' @ [LF]))
     = Inr (fileHeader ''mysqlerr''
            @ ''// Deprecated: should not be used'' @ [LF] @ ''const ER_OLD = 1051'' @ [LF]
            @ ''// Deprecated: should not be used'' @ [LF] @ ''const ER_OLD = 1051'' @ [LF]
            @ ''const ER_NEW = 1051'' @ [LF])"
    by (simp add: run_def sc)
  from first second show ?thesis by (simp add: inp_def inp0_def)
qed

section \<open>Regenerating from the generated file\<close>

text \<open>
  Claim C4, amended. Let the input give a catalog in which no two records with different
  names have the same code, and let the package name hold no line feed. If the run
  without a previous file writes \<open>out1\<close>, the run on the same input with \<open>out1\<close> as the
  previous file writes \<open>out1\<close> again: byte for byte the same, with no deprecated alias.
\<close>

theorem regeneration_idempotent:
  assumes first: "run pkg input None = Inr out1"
    and pkg: "LF \<notin> set pkg"
    and uniq: "oneNamePerCode (catalog input)"
  shows "run pkg input (Some out1) = Inr out1"
proof -
  from first obtain st where sc: "scan_loop init_state (scanLines input) = Inr st"
    and out1: "out1 = fileHeader pkg @ writeErrs emptyConstants (errs st)"
    by (auto simp: run_def split: sum.splits)
  have names: "\<forall>e \<in> set (errs st). CHR '' '' \<notin> set (name e) \<and> LF \<notin> set (name e)"
    using catalog_names [OF sc] by blast
  from parse_first_output [OF pkg names] out1 obtain cs es' where
      cs: "parseConstantsGo out1 = Inr cs"
    and nm: "\<And>cd. namesOf cs cd = map name (filter (\<lambda>e. code e = cd) es')"
    and sub: "set es' \<subseteq> set (errs st)"
    by blast
  have cat: "catalog input = errs st" using sc by (simp add: catalog_def)
  from uniq have "\<forall>e1 \<in> set (errs st). \<forall>e2 \<in> set (errs st).
      code e1 = code e2 \<longrightarrow> name e1 = name e2"
    unfolding oneNamePerCode_def cat .
  then have u: "\<And>e1 e2. e1 \<in> set (errs st) \<Longrightarrow> e2 \<in> set (errs st) \<Longrightarrow>
      code e1 = code e2 \<Longrightarrow> name e1 = name e2"
    by blast
  have "recordLines (namesOf cs (code e)) e = constDecl (name e) (code e)"
    if e: "e \<in> set (errs st)" for e
  proof (rule recordLines_no_alias, rule ballI)
    fix n
    assume "n \<in> set (namesOf cs (code e))"
    then obtain e' where "e' \<in> set (errs st)" "code e' = code e" "n = name e'"
      unfolding nm using sub by auto
    with u [OF this(1) e this(2)] show "n = name e" by simp
  qed
  then have "writeErrs cs (errs st) = writeErrs emptyConstants (errs st)"
    by (simp add: writeErrs_recordLines [of cs] writeErrs_empty cong: map_cong)
  with sc cs out1 show ?thesis by (simp add: run_def)
qed

theorem regeneration_idempotent_witness:
  "run ''mysqlerr'' (''ER_A 42000'' @ [LF] @ ''WARN_B'' @ [LF])
       (Some (fileHeader ''mysqlerr'' @ ''const ER_A = 1000'' @ [LF] @ ''const WARN_B = 1001'' @ [LF]))
     = Inr (fileHeader ''mysqlerr'' @ ''const ER_A = 1000'' @ [LF] @ ''const WARN_B = 1001'' @ [LF])"
proof -
  define inp where "inp = ''ER_A 42000'' @ [LF] @ ''WARN_B'' @ [LF]"
  have sc: "scan_loop init_state (scanLines inp)
      = Inr (init_state\<lparr>rCount := 2,
               errs := [\<lparr>name = ''ER_A'', code = 1000, sqlState = ''42000'', odbcState = [],
                          messages = [], obsolete = False\<rparr>,
                        \<lparr>name = ''WARN_B'', code = 1001, sqlState = [], odbcState = [],
                          messages = [], obsolete = False\<rparr>]\<rparr>)"
    unfolding inp_def by code_simp
  have it: "itoa 1000 = ''1000''" "itoa 1001 = ''1001''" by code_simp+
  have first: "run ''mysqlerr'' inp None
      = Inr (fileHeader ''mysqlerr'' @ ''const ER_A = 1000'' @ [LF] @ ''const WARN_B = 1001'' @ [LF])"
    by (simp add: run_def sc deprecates_def namesOf_empty constDecl_def fprintln_def it)
  have pkg: "LF \<notin> set ''mysqlerr''" by simp
  have uniq: "oneNamePerCode (catalog inp)"
    by (simp add: catalog_def sc oneNamePerCode_def)
  from regeneration_idempotent [OF first pkg uniq] show ?thesis
    by (simp add: inp_def)
qed

text \<open>
  Claim C4 as stated fails on an input that gives two names the same code. The input
  \<^verbatim>\<open>ER_A\<close>, \<^verbatim>\<open>start-error-number 1000\<close>, \<^verbatim>\<open>ER_B\<close> numbers both records 1000. The first run
  writes the two declarations; the run that reads them back finds, for each record, the
  other record's name under its code and writes it as a deprecated alias.
\<close>

theorem regeneration_adds_aliases:
  "run ''p'' (''ER_A'' @ [LF] @ ''start-error-number 1000'' @ [LF] @ ''ER_B'' @ [LF]) None
     = Inr (fileHeader ''p'' @ ''const ER_A = 1000'' @ [LF] @ ''const ER_B = 1000'' @ [LF])
   \<and> run ''p'' (''ER_A'' @ [LF] @ ''start-error-number 1000'' @ [LF] @ ''ER_B'' @ [LF])
        (Some (fileHeader ''p'' @ ''const ER_A = 1000'' @ [LF] @ ''const ER_B = 1000'' @ [LF]))
     = Inr (fileHeader ''p''
            @ ''// Deprecated: should not be used'' @ [LF] @ ''const ER_B = 1000'' @ [LF]
            @ ''const ER_A = 1000'' @ [LF]
            @ ''// Deprecated: should not be used'' @ [LF] @ ''const ER_A = 1000'' @ [LF]
            @ ''const ER_B = 1000'' @ [LF])
   \<and> fileHeader ''p''
            @ ''// Deprecated: should not be used'' @ [LF] @ ''const ER_B = 1000'' @ [LF]
            @ ''const ER_A = 1000'' @ [LF]
            @ ''// Deprecated: should not be used'' @ [LF] @ ''const ER_A = 1000'' @ [LF]
            @ ''const ER_B = 1000'' @ [LF]
       \<noteq> fileHeader ''p'' @ ''const ER_A = 1000'' @ [LF] @ ''const ER_B = 1000'' @ [LF]"
proof -
  define inp where "inp = ''ER_A'' @ [LF] @ ''start-error-number 1000'' @ [LF] @ ''ER_B'' @ [LF]"
  define es where "es = [\<lparr>name = ''ER_A'', code = 1000, sqlState = [], odbcState = [],
                          messages = [], obsolete = False\<rparr>,
                        \<lparr>name = ''ER_B'', code = 1000, sqlState = [], odbcState = [],
                          messages = [], obsolete = False\<rparr>]"
  have sc: "scan_loop init_state (scanLines inp) = Inr (init_state\<lparr>rCount := 1, errs := es\<rparr>)"
    unfolding inp_def es_def by code_simp
  have it: "itoa 1000 = ''1000''" by code_simp
  have w: "fileHeader ''p'' @ writeErrs emptyConstants es
             = fileHeader ''p'' @ ''const ER_A = 1000'' @ [LF] @ ''const ER_B = 1000'' @ [LF]"
    by (simp add: es_def deprecates_def namesOf_empty constDecl_def fprintln_def it)
  have first: "run ''p'' inp None
      = Inr (fileHeader ''p'' @ ''const ER_A = 1000'' @ [LF] @ ''const ER_B = 1000'' @ [LF])"
    using w by (simp add: run_def sc)
  have "\<forall>e \<in> set es. CHR '' '' \<notin> set (name e) \<and> LF \<notin> set (name e)"
    by (simp add: es_def)
  moreover have "fits (''package '' @ ''p'')"
    by (simp add: fits_def maxScanTokenSize_def)
  moreover have "\<forall>e \<in> set es. fits (declLine (name e) (code e))"
    by (simp add: es_def declLine_def it fits_def maxScanTokenSize_def)
  ultimately obtain cs where
      cs: "parseConstantsGo (fileHeader ''p'' @ writeErrs emptyConstants es) = Inr cs"
    and nm: "\<And>cd. namesOf cs cd = map name (filter (\<lambda>e. code e = cd) es)"
    using parse_first_output_fits [of "''p''" es] by auto
  have "writeErrs cs es =
          ''// Deprecated: should not be used'' @ [LF] @ ''const ER_B = 1000'' @ [LF]
            @ ''const ER_A = 1000'' @ [LF]
            @ ''// Deprecated: should not be used'' @ [LF] @ ''const ER_A = 1000'' @ [LF]
            @ ''const ER_B = 1000'' @ [LF]"
    unfolding writeErrs_recordLines [of cs]
    by (simp add: nm es_def recordLines_def deprecatedComment_def constDecl_def fprintln_def it)
  with cs w have second: "run ''p'' inp
        (Some (fileHeader ''p'' @ ''const ER_A = 1000'' @ [LF] @ ''const ER_B = 1000'' @ [LF]))
     = Inr (fileHeader ''p''
            @ ''// Deprecated: should not be used'' @ [LF] @ ''const ER_B = 1000'' @ [LF]
            @ ''const ER_A = 1000'' @ [LF]
            @ ''// Deprecated: should not be used'' @ [LF] @ ''const ER_A = 1000'' @ [LF]
            @ ''const ER_B = 1000'' @ [LF])"
    by (simp add: run_def sc)
  from first second show ?thesis by (simp add: inp_def)
qed

end
